theory Spec2Isabelle
  imports Main "HOL-Library.Extended_Nat"
begin

section \<open>The parser of oniguruma-to-es: tokens to AST\<close>

text \<open>
  The source builds the AST out of JavaScript objects that point at each other: every
  node has a \<open>parent\<close> back-link, containers (\<open>elements\<close>, \<open>alternatives\<close>,
  \<open>classes\<close>) are arrays of nodes that are pushed to and popped from, and the optimizer
  rewrites \<open>parent\<close>, \<open>negate\<close>, \<open>atomic\<close> and \<open>flags\<close> of nodes that already
  exist. The model therefore keeps an explicit store: a node is a record, an object
  reference is an address, and every function takes the state and returns the new one.
  A \<^verbatim>\<open>throw\<close> is the left summand of the result.
\<close>

subsection \<open>AST nodes\<close>

datatype AstTypes =
    Alternative | Assertion | Backreference | CapturingGroup | Character
  | CharacterClass | CharacterClassIntersection | CharacterClassRange | CharacterSet
  | Directive | Flags | Group | Pattern | Quantifier | RegExp | Subroutine
  | VariableLengthCharacterSet

text \<open>The values of \<open>AstAssertionKinds\<close> and \<open>AstVariableLengthCharacterSetKinds\<close>.\<close>

definition line_end :: string where "line_end = ''line_end''"
definition line_start :: string where "line_start = ''line_start''"
definition lookahead :: string where "lookahead = ''lookahead''"
definition lookbehind :: string where "lookbehind = ''lookbehind''"
definition search_start :: string where "search_start = ''search_start''"
definition string_end :: string where "string_end = ''string_end''"
definition string_end_newline :: string where "string_end_newline = ''string_end_newline''"
definition string_start :: string where "string_start = ''string_start''"
definition word_boundary :: string where "word_boundary = ''word_boundary''"
definition newline :: string where "newline = ''newline''"
definition grapheme :: string where "grapheme = ''grapheme''"

type_synonym addr = nat

text \<open>A \<open>ref\<close> of a backreference or subroutine is a number or a name.\<close>

datatype reference = RefNum int | RefName string

text \<open>The \<open>{enable, disable}\<close> object of a flag group or flag directive; never inspected.\<close>

record flag_mods =
  enable :: "string list"
  disable :: "string list"

text \<open>
  One record for all node objects, a field for every property the source ever sets.
  A property that is absent in the JavaScript object is the empty list, \<open>None\<close> or
  \<open>False\<close> here. JavaScript uses \<open>flags\<close> for the \<open>Flags\<close> child of the
  root and for the flag modifiers of a group or directive, and \<open>min\<close>/\<open>max\<close> for
  the bounds of a quantifier and for the two nodes of a range: the record has
  \<open>flags\<close> and \<open>gflags\<close>, \<open>qmin\<close>/\<open>qmax\<close> and \<open>rmin\<close>/\<open>rmax\<close>.
  \<open>cvalue\<close> is the property \<open>value\<close>.
\<close>

record node =
  ntype :: AstTypes
  parent :: "addr option"
  elements :: "addr list"
  alternatives :: "addr list"
  classes :: "addr list"
  pattern :: "addr option"
  flags :: "addr option"
  element :: "addr option"
  rmin :: "addr option"
  rmax :: "addr option"
  ignoreCase :: bool
  dotAll :: bool
  extended :: bool
  kind :: "string option"
  negate :: "bool option"
  cvalue :: nat
  ref :: "reference option"
  number :: nat
  name :: "string option"
  atomic :: bool
  gflags :: "flag_mods option"
  qmin :: nat
  qmax :: enat
  greedy :: bool
  possessive :: bool
  property :: "string option"

subsection \<open>Tokens\<close>

text \<open>
  Modelled from the spec: the token types and group kinds of \<^verbatim>\<open>tokenizer.js\<close>, which is
  not among the sources; the constructors are the members the parser names, with the
  fields it reads. \<open>Tok_Other\<close> stands for any token type the walker has no case for.
\<close>

datatype TokenGroupKinds =
  GK_atomic | GK_capturing | GK_group | GK_lookahead | GK_lookbehind | GK_other

datatype token =
    Tok_Alternator
  | Tok_Assertion string
  | Tok_Backreference string
  | Tok_Character nat
  | Tok_CharacterClassClose
  | Tok_CharacterClassHyphen
  | Tok_CharacterClassIntersector
  | Tok_CharacterClassOpen bool
  | Tok_CharacterSet string bool string
  | Tok_Directive string "flag_mods option"
  | Tok_GroupClose
  | Tok_GroupOpen TokenGroupKinds nat "string option" "flag_mods option" bool
  | Tok_Quantifier nat enat bool bool
  | Tok_Subroutine string
  | Tok_VariableLengthCharacterSet string
  | Tok_Other

text \<open>The pattern-level flags handed to \<open>parse\<close>.\<close>

record flags_input =
  in_ignoreCase :: bool
  in_dotAll :: bool
  in_extended :: bool

text \<open>
  What the parser imports from \<^verbatim>\<open>tokenizer.js\<close> and \<^verbatim>\<open>unicode.js\<close>, and what the
  regular-expression engine decides by its Unicode tables, are parameters:
  the two kind enumerations (their values), \<open>normalize\<close>, the set \<open>PosixProperties\<close>,
  the map \<open>JsUnicodePropertiesMap\<close>, the test of \<open>isValidJsGroupName\<close>
  (\<open>\p{IDS}\<close>, \<open>\p{IDC}\<close>), and the three regex replacements at the end of
  \<open>getJsUnicodePropertyName\<close>.
\<close>

record env =
  TokenCharacterSetKinds :: "string list"
  TokenDirectiveKinds :: "string list"
  normalize :: "string \<Rightarrow> string"
  PosixProperties :: "string \<Rightarrow> bool"
  JsUnicodePropertiesMap :: "string \<Rightarrow> string option"
  isValidJsGroupName :: "string \<Rightarrow> bool"
  reformatScriptName :: "string \<Rightarrow> string"

subsection \<open>Errors and the parser state\<close>

text \<open>
  One constructor for each \<^verbatim>\<open>throw\<close> of the source, named as the specification names
  them. \<open>TypeError\<close> is a property read on \<open>undefined\<close>. \<open>OutOfFuel\<close> is not an
  error of the source: it is the model's value for a loop that was cut short.
  \<open>Unmodelled\<close> marks the one coercion the model does not follow, \<open>+ref\<close> on a
  string that is not a decimal numeral.
\<close>

datatype error =
    UnexpectedToken
  | NumericRefWithNamedCapture
  | SubroutineGroupUndefined
  | SubroutineNameUndefined
  | SubroutineNameAmbiguous
  | InsufficientGroups
  | InvalidBackrefName
  | UndefinedGroupName
  | InvalidRange
  | ClassRangeOutOfOrder
  | RangeOutOfOrder
  | NothingToRepeat
  | VariableLookbehind
  | UnclosedClass
  | UnclosedGroup
  | InvalidGroupName
  | UnknownKind
  | TypeError
  | Unmodelled
  | OutOfFuel

text \<open>
  The \<open>context\<close> object of \<open>parse\<close> together with the store. \<open>namedGroups\<close> is a
  JavaScript \<open>Map\<close> from a name to the array of groups of that name: an association
  list in insertion order. \<open>next_addr\<close> is the address the next object gets.
\<close>

record state =
  heap :: "addr \<Rightarrow> node"
  next_addr :: addr
  current :: nat
  namedGroups :: "(string \<times> addr list) list"
  capturingGroups :: "addr list"
  subroutines :: "addr list"
  hasNumberedGroupRef :: bool

type_synonym 'a result = "error + 'a"
type_synonym walker = "state \<Rightarrow> addr \<Rightarrow> (addr \<times> state) result"

subsection \<open>The store\<close>

definition getNodeBase :: "addr option \<Rightarrow> AstTypes \<Rightarrow> node" where
  "getNodeBase p t =
     \<lparr>ntype = t, parent = p, elements = [], alternatives = [], classes = [],
      pattern = None, flags = None, element = None, rmin = None, rmax = None,
      ignoreCase = False, dotAll = False, extended = False, kind = None, negate = None,
      cvalue = 0, ref = None, number = 0, name = None, atomic = False, gflags = None,
      qmin = 0, qmax = 0, greedy = False, possessive = False, property = None\<rparr>"

text \<open>A new object: the node is stored at the next free address.\<close>

definition new_node :: "node \<Rightarrow> state \<Rightarrow> addr \<times> state" where
  "new_node n s =
     (next_addr s, s\<lparr>heap := (heap s)(next_addr s := n), next_addr := Suc (next_addr s)\<rparr>)"

text \<open>An assignment to properties of the object at an address.\<close>

definition upd :: "addr \<Rightarrow> (node \<Rightarrow> node) \<Rightarrow> state \<Rightarrow> state" where
  "upd a f s = s\<lparr>heap := (heap s)(a := f (heap s a))\<rparr>"

definition at_last :: "'a list \<Rightarrow> 'a option" where
  "at_last xs = (if xs = [] then None else Some (last xs))"

definition at_index :: "'a list \<Rightarrow> nat \<Rightarrow> 'a option" where
  "at_index xs i = (if i < length xs then Some (xs ! i) else None)"

subsection \<open>Strings\<close>

text \<open>
  \<open>String.prototype.slice(start, end)\<close>: a negative index counts from the end, both are
  clamped to the string, and an empty range gives the empty string.
\<close>

definition slice :: "'a list \<Rightarrow> int \<Rightarrow> int option \<Rightarrow> 'a list" where
  "slice str start end =
     (let len = int (length str);
          rel = (\<lambda>i. if i < 0 then max (len + i) 0 else min i len);
          from = rel start;
          to = (case end of None \<Rightarrow> len | Some e \<Rightarrow> rel e)
      in take (nat (to - from)) (drop (nat from) str))"

definition backslash :: char where "backslash = CHR 0x5C"
definition quote :: char where "quote = CHR 0x27"

definition is_digit :: "char \<Rightarrow> bool" where
  "is_digit c = (c \<in> set ''0123456789'')"

text \<open>
  The unary plus on a string of decimal digits. The source computes with IEEE doubles,
  which agree with the integers below \<open>2^53\<close>; the model has unbounded numbers.
\<close>

definition to_number :: "string \<Rightarrow> nat" where
  "to_number ds = foldl (\<lambda>n c. 10 * n + (of_char c - 48)) 0 ds"

text \<open>
  The two regular expressions \<^verbatim>\<open>/^(?<sign>-?)0*(?<num>[1-9]\d*)$/\<close> and
  \<^verbatim>\<open>/^(?<sign>[-+]?)0*(?<num>[1-9]\d*)$/\<close>, by the characters a sign may be: the
  groups \<open>sign\<close> and \<open>num\<close> of the match, or \<open>None\<close> for \<open>null\<close>.
\<close>

definition numberedRef :: "string \<Rightarrow> string \<Rightarrow> (string \<times> string) option" where
  "numberedRef signs r =
     (let sign = (case r of [] \<Rightarrow> [] | c # _ \<Rightarrow> if c \<in> set signs then [c] else []);
          num = dropWhile (\<lambda>c. c = CHR ''0'') (drop (length sign) r)
      in if num \<noteq> [] \<and> list_all is_digit num then Some (sign, num) else None)"

text \<open>\<^verbatim>\<open>/^\\k[<']/.test(raw)\<close>\<close>

definition hasKWrapper :: "string \<Rightarrow> bool" where
  "hasKWrapper raw =
     (case raw of
        c1 # c2 # c3 # _ \<Rightarrow>
          c1 = backslash \<and> c2 = CHR ''k'' \<and> (c3 = CHR ''<'' \<or> c3 = quote)
      | _ \<Rightarrow> False)"

text \<open>\<^verbatim>\<open>/[-+]/.test(ref)\<close>\<close>

definition hasSign :: "string \<Rightarrow> bool" where
  "hasSign r = (CHR ''-'' \<in> set r \<or> CHR ''+'' \<in> set r)"

subsection \<open>Node constructors\<close>

definition createAlternative :: "addr option \<Rightarrow> state \<Rightarrow> addr \<times> state" where
  "createAlternative p s = new_node ((getNodeBase p Alternative)\<lparr>elements := []\<rparr>) s"

definition withInitialAlternative :: "addr \<Rightarrow> state \<Rightarrow> addr \<times> state" where
  "withInitialAlternative node s =
     (let (alt, s1) = createAlternative (Some node) s
      in (node, upd node (\<lambda>n. n\<lparr>alternatives := [alt]\<rparr>) s1))"

text \<open>The object literal of assertion kinds in \<open>createAssertionFromToken\<close>.\<close>

definition assertionKind :: "string \<Rightarrow> string option" where
  "assertionKind k =
     (if k = ''^'' then Some line_start
      else if k = ''$'' then Some line_end
      else if k = [backslash, CHR ''A''] then Some string_start
      else if k = [backslash, CHR ''b''] then Some word_boundary
      else if k = [backslash, CHR ''B''] then Some word_boundary
      else if k = [backslash, CHR ''G''] then Some search_start
      else if k = [backslash, CHR ''z''] then Some string_end
      else if k = [backslash, CHR ''Z''] then Some string_end_newline
      else None)"

definition createAssertionFromToken ::
  "addr option \<Rightarrow> token \<Rightarrow> state \<Rightarrow> (addr \<times> state) result" where
  "createAssertionFromToken p token s =
     (case token of
        Tok_GroupOpen gk num nm fl neg \<Rightarrow>
          (let (node, s1) =
                 new_node ((getNodeBase p Assertion)
                   \<lparr>kind := Some (if gk = GK_lookbehind then lookbehind else lookahead),
                    negate := Some neg\<rparr>) s
           in Inr (withInitialAlternative node s1))
      | Tok_Assertion k \<Rightarrow>
          (case assertionKind k of
             None \<Rightarrow> Inl UnknownKind
           | Some knd \<Rightarrow>
               Inr (new_node ((getNodeBase p Assertion)
                 \<lparr>kind := Some knd,
                  negate := (if knd = word_boundary then Some (k = [backslash, CHR ''B''])
                             else None)\<rparr>) s))
      | _ \<Rightarrow> Inl UnknownKind)"

definition createBackreference :: "addr option \<Rightarrow> reference \<Rightarrow> state \<Rightarrow> addr \<times> state" where
  "createBackreference p r s = new_node ((getNodeBase p Backreference)\<lparr>ref := Some r\<rparr>) s"

definition createCapturingGroup ::
  "env \<Rightarrow> addr option \<Rightarrow> nat \<Rightarrow> string option \<Rightarrow> state \<Rightarrow> (addr \<times> state) result" where
  "createCapturingGroup E p num nm s =
     (if nm \<noteq> None \<and> \<not> isValidJsGroupName E (the nm) then Inl InvalidGroupName
      else
        (let (node, s1) =
               new_node ((getNodeBase p CapturingGroup)\<lparr>number := num, name := nm\<rparr>) s
         in Inr (withInitialAlternative node s1)))"

definition createCharacter :: "addr option \<Rightarrow> nat \<Rightarrow> state \<Rightarrow> addr \<times> state" where
  "createCharacter p charCode s =
     new_node ((getNodeBase p Character)\<lparr>cvalue := charCode\<rparr>) s"

definition createCharacterClassBase :: "addr option \<Rightarrow> bool \<Rightarrow> state \<Rightarrow> addr \<times> state" where
  "createCharacterClassBase p neg s =
     new_node ((getNodeBase p CharacterClass)\<lparr>negate := Some neg, elements := []\<rparr>) s"

definition createCharacterClassIntersection :: "addr option \<Rightarrow> state \<Rightarrow> addr \<times> state" where
  "createCharacterClassIntersection p s =
     (let (node, s1) = new_node (getNodeBase p CharacterClassIntersection) s;
          (cc, s2) = createCharacterClassBase (Some node) False s1
      in (node, upd node (\<lambda>n. n\<lparr>classes := [cc]\<rparr>) s2))"

definition withInitialIntersection :: "addr \<Rightarrow> state \<Rightarrow> addr \<times> state" where
  "withInitialIntersection node s =
     (let (intersection, s1) = createCharacterClassIntersection (Some node) s
      in (node, upd node (\<lambda>n. n\<lparr>elements := [intersection]\<rparr>) s1))"

definition createCharacterClass :: "addr option \<Rightarrow> bool \<Rightarrow> state \<Rightarrow> addr \<times> state" where
  "createCharacterClass p neg s =
     (let (node, s1) = createCharacterClassBase p neg s in withInitialIntersection node s1)"

definition createCharacterClassRange ::
  "addr option \<Rightarrow> addr \<Rightarrow> addr \<Rightarrow> state \<Rightarrow> (addr \<times> state) result" where
  "createCharacterClassRange p mn mx s =
     (if cvalue (heap s mx) < cvalue (heap s mn) then Inl ClassRangeOutOfOrder
      else Inr (new_node ((getNodeBase p CharacterClassRange)
                  \<lparr>rmin := Some mn, rmax := Some mx\<rparr>) s))"

definition getJsUnicodePropertyName :: "env \<Rightarrow> string \<Rightarrow> string" where
  "getJsUnicodePropertyName E prop =
     (case JsUnicodePropertiesMap E (normalize E prop) of
        Some jsName \<Rightarrow> if jsName \<noteq> [] then jsName else reformatScriptName E prop
      | None \<Rightarrow> reformatScriptName E prop)"

text \<open>
  The members of \<open>TokenCharacterSetKinds\<close> and \<open>TokenDirectiveKinds\<close> that the source
  names (\<open>property\<close>, \<open>posix\<close>, \<open>digit\<close>, \<open>flags\<close>, ...) are taken to be their own
  names as strings.
\<close>

definition createCharacterSetFromToken ::
  "env \<Rightarrow> addr option \<Rightarrow> string \<Rightarrow> bool \<Rightarrow> string \<Rightarrow> state \<Rightarrow> (addr \<times> state) result" where
  "createCharacterSetFromToken E p kind0 neg property0 s =
     (let normalized = normalize E property0;
          toPosix = (kind0 = ''property'' \<and> PosixProperties E normalized);
          knd = (if toPosix then ''posix'' else kind0);
          prop = (if toPosix then normalized else property0)
      in if knd \<notin> set (TokenCharacterSetKinds E) then Inl UnknownKind
         else
           (let node = (getNodeBase p CharacterSet)\<lparr>kind := Some knd\<rparr>;
                node =
                  (if knd \<in> set [''digit'', ''hex'', ''posix'', ''property'', ''space'', ''word'']
                   then node
                     \<lparr>negate := Some neg,
                      property :=
                        (if knd = ''posix'' then Some prop
                         else if knd = ''property'' then Some (getJsUnicodePropertyName E prop)
                         else None)\<rparr>
                   else node)
            in Inr (new_node node s)))"

definition createDirectiveFromToken ::
  "env \<Rightarrow> addr option \<Rightarrow> string \<Rightarrow> flag_mods option \<Rightarrow> state \<Rightarrow> (addr \<times> state) result" where
  "createDirectiveFromToken E p knd fl s =
     (if knd \<notin> set (TokenDirectiveKinds E) then Inl UnknownKind
      else Inr (new_node ((getNodeBase p Directive)
                  \<lparr>kind := Some knd, gflags := (if knd = ''flags'' then fl else None)\<rparr>) s))"

definition createFlags :: "addr option \<Rightarrow> flags_input \<Rightarrow> state \<Rightarrow> addr \<times> state" where
  "createFlags p fl s =
     new_node ((getNodeBase p Flags)
       \<lparr>ignoreCase := in_ignoreCase fl, dotAll := in_dotAll fl, extended := in_extended fl\<rparr>) s"

definition createGroup ::
  "addr option \<Rightarrow> bool \<Rightarrow> flag_mods option \<Rightarrow> state \<Rightarrow> addr \<times> state" where
  "createGroup p atm fl s =
     (let node = getNodeBase p Group;
          node = (if atm then node\<lparr>atomic := True\<rparr>
                  else if fl \<noteq> None then node\<lparr>gflags := fl\<rparr> else node);
          (a, s1) = new_node node s
      in withInitialAlternative a s1)"

definition createPattern :: "addr option \<Rightarrow> state \<Rightarrow> addr \<times> state" where
  "createPattern p s =
     (let (node, s1) = new_node (getNodeBase p Pattern) s in withInitialAlternative node s1)"

text \<open>
  \<open>isWithin\<close> follows the \<open>parent\<close> links upwards. The loop of the source ends when
  a node has no parent; the model counts the steps down from a bound, and \<open>None\<close> is
  a chain that is longer than the bound.
\<close>

fun isWithin :: "nat \<Rightarrow> (addr \<Rightarrow> node) \<Rightarrow> addr \<Rightarrow> AstTypes \<Rightarrow> string option \<Rightarrow> bool option" where
  "isWithin 0 h node t k = None"
| "isWithin (Suc n) h node t k =
     (case parent (h node) of
        None \<Rightarrow> Some False
      | Some p \<Rightarrow>
          if ntype (h p) = t \<and> (case k of None \<Rightarrow> True | Some kk \<Rightarrow> kk = [] \<or> kind (h p) = Some kk)
          then Some True
          else isWithin n h p t k)"

definition createQuantifier ::
  "addr option \<Rightarrow> addr option \<Rightarrow> nat \<Rightarrow> enat \<Rightarrow> bool \<Rightarrow> bool \<Rightarrow> state \<Rightarrow> (addr \<times> state) result" where
  "createQuantifier p el mn mx grdy poss s =
     (if mx < enat mn then Inl RangeOutOfOrder
      else
        (let (node, s1) =
               new_node ((getNodeBase p Quantifier)
                 \<lparr>qmin := mn, qmax := mx, greedy := grdy, possessive := poss, element := el\<rparr>) s
         in if enat mn \<noteq> mx
            then (case isWithin (next_addr s1) (heap s1) node Assertion (Some lookbehind) of
                    None \<Rightarrow> Inl OutOfFuel
                  | Some found \<Rightarrow> if found then Inl VariableLookbehind else Inr (node, s1))
            else Inr (node, s1)))"

definition createRegExp :: "addr option \<Rightarrow> flags_input \<Rightarrow> state \<Rightarrow> addr \<times> state" where
  "createRegExp p fl s =
     (let (node, s1) = new_node (getNodeBase p RegExp) s;
          (pat, s2) = createPattern (Some node) s1;
          s3 = upd node (\<lambda>n. n\<lparr>pattern := Some pat\<rparr>) s2;
          (f, s4) = createFlags (Some node) fl s3
      in (node, upd node (\<lambda>n. n\<lparr>flags := Some f\<rparr>) s4))"

definition createSubroutine :: "addr option \<Rightarrow> reference \<Rightarrow> state \<Rightarrow> addr \<times> state" where
  "createSubroutine p r s = new_node ((getNodeBase p Subroutine)\<lparr>ref := Some r\<rparr>) s"

definition createVariableLengthCharacterSet ::
  "addr option \<Rightarrow> string \<Rightarrow> state \<Rightarrow> (addr \<times> state) result" where
  "createVariableLengthCharacterSet p k s =
     (if k = [backslash, CHR ''R'']
      then Inr (new_node ((getNodeBase p VariableLengthCharacterSet)\<lparr>kind := Some newline\<rparr>) s)
      else if k = [backslash, CHR ''X'']
      then Inr (new_node ((getNodeBase p VariableLengthCharacterSet)\<lparr>kind := Some grapheme\<rparr>) s)
      else Inl UnknownKind)"

definition createByGroupKind ::
  "env \<Rightarrow> addr option \<Rightarrow> token \<Rightarrow> state \<Rightarrow> (addr \<times> state) result" where
  "createByGroupKind E p token s =
     (case token of
        Tok_GroupOpen gk num nm fl neg \<Rightarrow>
          (case gk of
             GK_atomic \<Rightarrow> Inr (createGroup p True None s)
           | GK_capturing \<Rightarrow> createCapturingGroup E p num nm s
           | GK_group \<Rightarrow> Inr (createGroup p False fl s)
           | GK_lookahead \<Rightarrow> createAssertionFromToken p token s
           | GK_lookbehind \<Rightarrow> createAssertionFromToken p token s
           | GK_other \<Rightarrow> Inl UnknownKind)
      | _ \<Rightarrow> Inl UnknownKind)"

subsection \<open>The optimizer\<close>

text \<open>
  \<open>getOptimizedGroup\<close>. The source reads \<open>firstAlt.elements[0]\<close> before it tests
  anything; with no element the read is \<open>undefined\<close> and the length test fails first.
\<close>

definition getOptimizedGroup :: "addr \<Rightarrow> state \<Rightarrow> (addr \<times> state) result" where
  "getOptimizedGroup node s =
     (case at_index (alternatives (heap s node)) 0 of
        None \<Rightarrow> Inl TypeError
      | Some firstAlt \<Rightarrow>
          (case at_index (elements (heap s firstAlt)) 0 of
             None \<Rightarrow> Inr (node, s)
           | Some firstAltFirstEl \<Rightarrow>
               if ntype (heap s node) = Group \<and>
                  length (alternatives (heap s node)) = 1 \<and>
                  length (elements (heap s firstAlt)) = 1 \<and>
                  ntype (heap s firstAltFirstEl) = Group \<and>
                  \<not> (atomic (heap s node) \<and> gflags (heap s firstAltFirstEl) \<noteq> None) \<and>
                  \<not> (gflags (heap s node) \<noteq> None \<and>
                     (atomic (heap s firstAltFirstEl) \<or> gflags (heap s firstAltFirstEl) \<noteq> None))
               then
                 (let s1 = upd firstAltFirstEl (\<lambda>n. n\<lparr>parent := parent (heap s node)\<rparr>) s;
                      s2 = (if atomic (heap s1 node)
                            then upd firstAltFirstEl (\<lambda>n. n\<lparr>atomic := True\<rparr>) s1
                            else if gflags (heap s1 node) \<noteq> None
                            then upd firstAltFirstEl (\<lambda>n. n\<lparr>gflags := gflags (heap s1 node)\<rparr>) s1
                            else s1)
                  in Inr (firstAltFirstEl, s2))
               else Inr (node, s)))"

text \<open>One turn of the \<open>for\<close> loop of \<open>optimizeCharacterClassIntersection\<close>.\<close>

definition optimizeClass :: "addr \<Rightarrow> nat \<Rightarrow> state \<Rightarrow> state" where
  "optimizeClass intersection i s =
     (case at_index (classes (heap s intersection)) i of
        None \<Rightarrow> s
      | Some cc \<Rightarrow>
          (case at_index (elements (heap s cc)) 0 of
             None \<Rightarrow> s
           | Some firstChild \<Rightarrow>
               if length (elements (heap s cc)) = 1 \<and> ntype (heap s firstChild) = CharacterClass
               then
                 (let s1 = upd intersection (\<lambda>n. n\<lparr>classes := (classes n)[i := firstChild]\<rparr>) s;
                      s2 = upd firstChild (\<lambda>n. n\<lparr>parent := Some intersection\<rparr>) s1
                  in upd firstChild
                       (\<lambda>n. n\<lparr>negate := Some (negate (heap s2 cc) \<noteq> negate n)\<rparr>) s2)
               else s))"

text \<open>The loop runs \<open>i\<close> over the indices of \<open>classes\<close>, whose length no turn changes.\<close>

definition optimizeCharacterClassIntersection :: "addr \<Rightarrow> state \<Rightarrow> state" where
  "optimizeCharacterClassIntersection intersection s =
     fold (optimizeClass intersection) [0..<length (classes (heap s intersection))] s"

subsection \<open>The parsers of one construct\<close>

definition fromNum :: "state \<Rightarrow> addr \<Rightarrow> nat \<Rightarrow> bool \<Rightarrow> (addr \<times> state) result" where
  "fromNum s p num isRelative =
     (let numCapsToLeft = length (capturingGroups s)
      in if num > numCapsToLeft then Inl InsufficientGroups
         else Inr (createBackreference (Some p)
                (RefNum (if isRelative then int numCapsToLeft + 1 - int num else int num))
                (s\<lparr>hasNumberedGroupRef := True\<rparr>)))"

definition parseBackreference :: "state \<Rightarrow> addr \<Rightarrow> string \<Rightarrow> (addr \<times> state) result" where
  "parseBackreference s p raw =
     (if hasKWrapper raw then
        (let r = slice raw 3 (Some (- 1))
         in case numberedRef ''-'' r of
              Some (sign, num) \<Rightarrow> fromNum s p (to_number num) (sign \<noteq> [])
            | None \<Rightarrow>
                if hasSign r then Inl InvalidBackrefName
                else if map_of (namedGroups s) r = None then Inl UndefinedGroupName
                else Inr (createBackreference (Some p) (RefName r) s))
      else
        (let r = slice raw 1 None
         in if list_all is_digit r then fromNum s p (to_number r) False
            else Inl Unmodelled))"

text \<open>\<open>token.type === TokenTypes.CharacterClassOpen\<close>\<close>

definition isCharacterClassOpen :: "token \<Rightarrow> bool" where
  "isCharacterClassOpen t = (case t of Tok_CharacterClassOpen neg \<Rightarrow> True | _ \<Rightarrow> False)"

text \<open>
  The nodes that have an \<open>elements\<close> array: \<open>createAlternative\<close> and
  \<open>createCharacterClassBase\<close> are the only constructors that set the property, and no
  code changes the \<open>type\<close> of a node. The record has the field for every node; where the
  source reads \<open>parent.elements.length\<close> or \<open>parent.elements.at(-1)\<close> of a node without
  the array, JavaScript throws a \<open>TypeError\<close>.
\<close>

definition hasElements :: "node \<Rightarrow> bool" where
  "hasElements n \<longleftrightarrow> ntype n = Alternative \<or> ntype n = CharacterClass"

definition parseCharacterClassHyphen ::
  "walker \<Rightarrow> state \<Rightarrow> addr \<Rightarrow> token option \<Rightarrow> (addr \<times> state) result" where
  "parseCharacterClassHyphen w s p nextToken =
     (if \<not> hasElements (heap s p) then Inl TypeError
      else
        (case (at_last (elements (heap s p)), nextToken) of
           (Some prevNode, Some nxt) \<Rightarrow>
             if ntype (heap s prevNode) \<noteq> CharacterClass \<and>
                \<not> isCharacterClassOpen nxt \<and>
                nxt \<noteq> Tok_CharacterClassClose \<and>
                nxt \<noteq> Tok_CharacterClassIntersector
             then
               (case w s p of
                  Inl e \<Rightarrow> Inl e
                | Inr (nextNode, s1) \<Rightarrow>
                    if ntype (heap s1 prevNode) = Character \<and> ntype (heap s1 nextNode) = Character
                    then
                      (let s2 = upd p (\<lambda>n. n\<lparr>elements := butlast (elements n)\<rparr>) s1
                       in case createCharacterClassRange (Some p) prevNode nextNode s2 of
                            Inl e \<Rightarrow> Inl e
                          | Inr (node, s3) \<Rightarrow>
                              Inr (node,
                                upd nextNode (\<lambda>n. n\<lparr>parent := Some node\<rparr>)
                                  (upd prevNode (\<lambda>n. n\<lparr>parent := Some node\<rparr>) s3)))
                    else Inl InvalidRange)
             else Inr (createCharacter (Some p) 45 s)
         | _ \<Rightarrow> Inr (createCharacter (Some p) 45 s)))"

definition parseQuantifier ::
  "state \<Rightarrow> addr \<Rightarrow> nat \<Rightarrow> enat \<Rightarrow> bool \<Rightarrow> bool \<Rightarrow> (addr \<times> state) result" where
  "parseQuantifier s p mn mx grdy poss =
     (if \<not> hasElements (heap s p) then Inl TypeError
      else if elements (heap s p) = [] then Inl NothingToRepeat
      else
        (case createQuantifier (Some p) (at_last (elements (heap s p))) mn mx grdy poss s of
           Inl e \<Rightarrow> Inl e
         | Inr (node, s1) \<Rightarrow>
             (case element (heap s1 node) of
                None \<Rightarrow> Inl TypeError
              | Some el \<Rightarrow>
                  Inr (node,
                    upd p (\<lambda>n. n\<lparr>elements := butlast (elements n)\<rparr>)
                      (upd el (\<lambda>n. n\<lparr>parent := Some node\<rparr>) s1)))))"

definition parseSubroutine :: "state \<Rightarrow> addr \<Rightarrow> string \<Rightarrow> addr \<times> state" where
  "parseSubroutine s p raw =
     (let r = slice raw 3 (Some (- 1));
          (r', s1) =
            (case numberedRef ''-+'' r of
               Some (sign, digits) \<Rightarrow>
                 (let num = int (to_number digits);
                      numCapsToLeft = int (length (capturingGroups s))
                  in (RefNum (if sign = [] then num
                              else if sign = ''+'' then numCapsToLeft + num
                              else numCapsToLeft + 1 - num),
                      s\<lparr>hasNumberedGroupRef := True\<rparr>))
             | None \<Rightarrow> (RefName r, s));
          (node, s2) = createSubroutine (Some p) r' s1
      in (node, s2\<lparr>subroutines := subroutines s2 @ [node]\<rparr>))"

text \<open>
  The body loop of \<open>parseCharacterClassOpen\<close>. The source loops until the closing
  bracket; the model stops after \<open>fuel\<close> turns with \<open>OutOfFuel\<close>.
\<close>

fun classBody :: "walker \<Rightarrow> nat \<Rightarrow> token list \<Rightarrow> addr \<Rightarrow> state \<Rightarrow> state result" where
  "classBody w fuel tokens intersection s =
     (case at_index tokens (current s) of
        None \<Rightarrow> Inl UnclosedClass
      | Some nextToken \<Rightarrow>
          if nextToken = Tok_CharacterClassClose then Inr s
          else
            (case fuel of
               0 \<Rightarrow> Inl OutOfFuel
             | Suc k \<Rightarrow>
                 if nextToken = Tok_CharacterClassIntersector then
                   (let (cc, s1) = createCharacterClassBase (Some intersection) False s;
                        s2 = upd intersection (\<lambda>n. n\<lparr>classes := classes n @ [cc]\<rparr>) s1
                    in classBody w k tokens intersection (s2\<lparr>current := current s2 + 1\<rparr>))
                 else
                   (case at_last (classes (heap s intersection)) of
                      None \<Rightarrow> Inl TypeError
                    | Some cc \<Rightarrow>
                        (case w s cc of
                           Inl e \<Rightarrow> Inl e
                         | Inr (n, s1) \<Rightarrow>
                             classBody w k tokens intersection
                               (upd cc (\<lambda>c. c\<lparr>elements := elements c @ [n]\<rparr>) s1)))))"

definition parseCharacterClassOpen ::
  "walker \<Rightarrow> nat \<Rightarrow> token list \<Rightarrow> bool \<Rightarrow> state \<Rightarrow> addr \<Rightarrow> bool \<Rightarrow> (addr \<times> state) result" where
  "parseCharacterClassOpen w fuel tokens optimize s p neg =
     (let (node, s1) = createCharacterClass (Some p) neg s
      in case at_index (elements (heap s1 node)) 0 of
           None \<Rightarrow> Inl TypeError
         | Some intersection \<Rightarrow>
             (case classBody w fuel tokens intersection s1 of
                Inl e \<Rightarrow> Inl e
              | Inr s2 \<Rightarrow>
                  (let s3 = (if optimize then optimizeCharacterClassIntersection intersection s2
                             else s2)
                   in if length (classes (heap s3 intersection)) = 1 then
                        (let cc = hd (classes (heap s3 intersection));
                             s4 = upd cc (\<lambda>n. n\<lparr>parent := Some p\<rparr>) s3;
                             s5 = upd cc
                                    (\<lambda>n. n\<lparr>negate := Some (negate (heap s4 node) \<noteq> negate n)\<rparr>) s4
                         in Inr (cc, s5\<lparr>current := current s5 + 1\<rparr>))
                      else Inr (node, s3\<lparr>current := current s3 + 1\<rparr>))))"

text \<open>\<open>namedGroups.get(name).push(node)\<close>, after \<open>namedGroups.set(name, [])\<close> for a new name.\<close>

definition registerName :: "string \<Rightarrow> addr \<Rightarrow> (string \<times> addr list) list \<Rightarrow> (string \<times> addr list) list" where
  "registerName nm node m =
     (if map_of m nm = None then m @ [(nm, [node])]
      else map (\<lambda>(k, v). if k = nm then (k, v @ [node]) else (k, v)) m)"

fun groupBody :: "walker \<Rightarrow> nat \<Rightarrow> token list \<Rightarrow> addr \<Rightarrow> state \<Rightarrow> state result" where
  "groupBody w fuel tokens node s =
     (case at_index tokens (current s) of
        None \<Rightarrow> Inl UnclosedGroup
      | Some nextToken \<Rightarrow>
          if nextToken = Tok_GroupClose then Inr s
          else
            (case fuel of
               0 \<Rightarrow> Inl OutOfFuel
             | Suc k \<Rightarrow>
                 if nextToken = Tok_Alternator then
                   (let (alt, s1) = createAlternative (Some node) s;
                        s2 = upd node (\<lambda>n. n\<lparr>alternatives := alternatives n @ [alt]\<rparr>) s1
                    in groupBody w k tokens node (s2\<lparr>current := current s2 + 1\<rparr>))
                 else
                   (case at_last (alternatives (heap s node)) of
                      None \<Rightarrow> Inl TypeError
                    | Some alt \<Rightarrow>
                        (case w s alt of
                           Inl e \<Rightarrow> Inl e
                         | Inr (n, s1) \<Rightarrow>
                             groupBody w k tokens node
                               (upd alt (\<lambda>a. a\<lparr>elements := elements a @ [n]\<rparr>) s1)))))"

definition parseGroupOpen ::
  "env \<Rightarrow> walker \<Rightarrow> nat \<Rightarrow> token list \<Rightarrow> bool \<Rightarrow> state \<Rightarrow> addr \<Rightarrow> token \<Rightarrow> (addr \<times> state) result" where
  "parseGroupOpen E w fuel tokens optimize s p token =
     (case createByGroupKind E (Some p) token s of
        Inl e \<Rightarrow> Inl e
      | Inr (node, s1) \<Rightarrow>
          (let s2 =
                 (if ntype (heap s1 node) = CapturingGroup then
                    (let s' = s1\<lparr>capturingGroups := capturingGroups s1 @ [node]\<rparr>
                     in case name (heap s' node) of
                          None \<Rightarrow> s'
                        | Some nm \<Rightarrow>
                            if nm \<noteq> [] then s'\<lparr>namedGroups := registerName nm node (namedGroups s')\<rparr>
                            else s')
                  else s1)
           in case groupBody w fuel tokens node s2 of
                Inl e \<Rightarrow> Inl e
              | Inr s3 \<Rightarrow>
                  (case (if optimize then getOptimizedGroup node s3 else Inr (node, s3)) of
                     Inl e \<Rightarrow> Inl e
                   | Inr (node', s4) \<Rightarrow> Inr (node', s4\<lparr>current := current s4 + 1\<rparr>))))"

subsection \<open>The walker and \<open>parse\<close>\<close>

text \<open>
  \<open>context.walk\<close>: read the token at \<open>current\<close>, advance, dispatch on the token type.
  The sub-parsers reach the walker through \<open>context\<close>; here it is the argument \<open>w\<close>.
\<close>

definition walkToken ::
  "env \<Rightarrow> token list \<Rightarrow> bool \<Rightarrow> walker \<Rightarrow> nat \<Rightarrow> state \<Rightarrow> addr \<Rightarrow> (addr \<times> state) result" where
  "walkToken E tokens optimize w fuel s0 p =
     (case at_index tokens (current s0) of
        None \<Rightarrow> Inl TypeError
      | Some token \<Rightarrow>
          (let s = s0\<lparr>current := current s0 + 1\<rparr>
           in case token of
                Tok_Alternator \<Rightarrow> Inr (createAlternative (parent (heap s p)) s)
              | Tok_Assertion k \<Rightarrow> createAssertionFromToken (Some p) token s
              | Tok_Backreference raw \<Rightarrow> parseBackreference s p raw
              | Tok_Character v \<Rightarrow> Inr (createCharacter (Some p) v s)
              | Tok_CharacterClassHyphen \<Rightarrow>
                  parseCharacterClassHyphen w s p (at_index tokens (current s))
              | Tok_CharacterClassOpen neg \<Rightarrow>
                  parseCharacterClassOpen w fuel tokens optimize s p neg
              | Tok_CharacterSet k neg prop \<Rightarrow> createCharacterSetFromToken E (Some p) k neg prop s
              | Tok_Directive k fl \<Rightarrow> createDirectiveFromToken E (Some p) k fl s
              | Tok_GroupOpen gk num nm fl neg \<Rightarrow>
                  parseGroupOpen E w fuel tokens optimize s p token
              | Tok_Quantifier mn mx grdy poss \<Rightarrow> parseQuantifier s p mn mx grdy poss
              | Tok_Subroutine raw \<Rightarrow> Inr (parseSubroutine s p raw)
              | Tok_VariableLengthCharacterSet k \<Rightarrow> createVariableLengthCharacterSet (Some p) k s
              | _ \<Rightarrow> Inl UnexpectedToken))"

text \<open>
  The recursion of the walker through the sub-parsers, by nesting depth: with \<open>n\<close>
  left the walker may be entered \<open>n\<close> times inside one another, and each body loop
  may take \<open>n\<close> turns. Every turn and every entry consumes a token, so the number of
  tokens bounds both (\<open>parse_fuel\<close> below).
\<close>

fun walk :: "env \<Rightarrow> token list \<Rightarrow> bool \<Rightarrow> nat \<Rightarrow> walker" where
  "walk E tokens optimize 0 = (\<lambda>s p. Inl OutOfFuel)"
| "walk E tokens optimize (Suc n) = walkToken E tokens optimize (walk E tokens optimize n) n"

text \<open>The loop of \<open>parse\<close> over the top level.\<close>

fun topLevel :: "walker \<Rightarrow> nat \<Rightarrow> token list \<Rightarrow> addr \<Rightarrow> addr \<Rightarrow> state \<Rightarrow> state result" where
  "topLevel w fuel tokens ast topAlt s =
     (if current s < length tokens then
        (case fuel of
           0 \<Rightarrow> Inl OutOfFuel
         | Suc k \<Rightarrow>
             (case w s topAlt of
                Inl e \<Rightarrow> Inl e
              | Inr (node, s1) \<Rightarrow>
                  if ntype (heap s1 node) = Alternative then
                    (case pattern (heap s1 ast) of
                       None \<Rightarrow> Inl TypeError
                     | Some pat \<Rightarrow>
                         topLevel w k tokens ast node
                           (upd pat (\<lambda>n. n\<lparr>alternatives := alternatives n @ [node]\<rparr>) s1))
                  else
                    topLevel w k tokens ast topAlt
                      (upd topAlt (\<lambda>n. n\<lparr>elements := elements n @ [node]\<rparr>) s1)))
      else Inr s)"

text \<open>The checks of \<open>parse\<close> after the loop, on one subroutine and on all in order.\<close>

definition checkSubroutine :: "state \<Rightarrow> addr \<Rightarrow> error option" where
  "checkSubroutine s sub =
     (case ref (heap s sub) of
        Some (RefNum r) \<Rightarrow>
          if r < 1 \<or> r > int (length (capturingGroups s)) then Some SubroutineGroupUndefined
          else None
      | Some (RefName nm) \<Rightarrow>
          (case map_of (namedGroups s) nm of
             None \<Rightarrow> Some SubroutineNameUndefined
           | Some groups \<Rightarrow> if length groups > 1 then Some SubroutineNameAmbiguous else None)
      | None \<Rightarrow> Some SubroutineNameUndefined)"

fun checkSubroutines :: "state \<Rightarrow> addr list \<Rightarrow> error option" where
  "checkSubroutines s [] = None"
| "checkSubroutines s (sub # subs) =
     (case checkSubroutine s sub of Some e \<Rightarrow> Some e | None \<Rightarrow> checkSubroutines s subs)"

definition postPass :: "state \<Rightarrow> error option" where
  "postPass s =
     (if hasNumberedGroupRef s \<and> namedGroups s \<noteq> [] then Some NumericRefWithNamedCapture
      else checkSubroutines s (subroutines s))"

definition initial :: state where
  "initial =
     \<lparr>heap = (\<lambda>a. getNodeBase None RegExp), next_addr = 0, current = 0, namedGroups = [],
      capturingGroups = [], subroutines = [], hasNumberedGroupRef = False\<rparr>"

definition parse_fuel :: "token list \<Rightarrow> nat" where
  "parse_fuel tokens = length tokens"

text \<open>
  \<open>parse\<close> in two parts: \<open>walkTokens\<close> is the body up to the end of the loop (the root
  and the state it leaves), \<open>parse\<close> adds the checks after the loop.
\<close>

definition walkTokens :: "env \<Rightarrow> token list \<Rightarrow> flags_input \<Rightarrow> bool \<Rightarrow> (addr \<times> state) result" where
  "walkTokens E tokens fl optimize =
     (let (ast, s1) = createRegExp None fl initial
      in case pattern (heap s1 ast) of
           None \<Rightarrow> Inl TypeError
         | Some pat \<Rightarrow>
             (case at_index (alternatives (heap s1 pat)) 0 of
                None \<Rightarrow> Inl TypeError
              | Some topAlt \<Rightarrow>
                  (case topLevel (walk E tokens optimize (parse_fuel tokens)) (parse_fuel tokens)
                          tokens ast topAlt s1 of
                     Inl e \<Rightarrow> Inl e
                   | Inr s2 \<Rightarrow> Inr (ast, s2))))"

definition parse :: "env \<Rightarrow> token list \<Rightarrow> flags_input \<Rightarrow> bool \<Rightarrow> (addr \<times> state) result" where
  "parse E tokens fl optimize =
     (case walkTokens E tokens fl optimize of
        Inl e \<Rightarrow> Inl e
      | Inr (ast, s) \<Rightarrow> (case postPass s of Some e \<Rightarrow> Inl e | None \<Rightarrow> Inr (ast, s)))"

section \<open>Notions of the specification\<close>

text \<open>
  The words of the claims, as definitions of their own, to state the theorems with.
\<close>

text \<open>
  A string matches \<^verbatim>\<open>^(sign?)0*([1-9]\d*)$\<close>, with the given characters for the sign:
  it is the sign, some zeros, and a numeral that starts with a digit from 1 to 9.
\<close>

definition matchesNumbered :: "string \<Rightarrow> string \<Rightarrow> string \<Rightarrow> string \<Rightarrow> bool" where
  "matchesNumbered signs r sign num \<longleftrightarrow>
     (\<exists>k. r = sign @ replicate k (CHR ''0'') @ num) \<and>
     (sign = [] \<or> (\<exists>c. c \<in> set signs \<and> sign = [c])) \<and>
     num \<noteq> [] \<and> hd num \<in> set ''123456789'' \<and> list_all is_digit (tl num)"

text \<open>\<open>b\<close> is an ancestor of \<open>a\<close>: it is reached from \<open>a\<close> by one or more \<open>parent\<close> links.\<close>

inductive ancestor :: "(addr \<Rightarrow> node) \<Rightarrow> addr \<Rightarrow> addr \<Rightarrow> bool" for h where
  parent: "parent (h a) = Some b \<Longrightarrow> ancestor h a b"
| step: "parent (h a) = Some c \<Longrightarrow> ancestor h c b \<Longrightarrow> ancestor h a b"

text \<open>
  The \<open>parent\<close> links from \<open>a\<close> end at a node without parent, and every parent on
  the way is an older object than its child. \<open>getNodeBase\<close> gives a new node an
  existing node for its parent, so the open nodes of a parse are of this kind.
\<close>

inductive spine :: "(addr \<Rightarrow> node) \<Rightarrow> addr \<Rightarrow> bool" for h where
  root: "parent (h a) = None \<Longrightarrow> spine h a"
| up: "parent (h a) = Some b \<Longrightarrow> b < a \<Longrightarrow> spine h b \<Longrightarrow> spine h a"

definition isLookbehind :: "node \<Rightarrow> bool" where
  "isLookbehind n \<longleftrightarrow> ntype n = Assertion \<and> kind n = Some lookbehind"

text \<open>
  The condition of section 4.3 for a range: the class has a last element, which is not a
  \<open>CharacterClass\<close>, and there is a next token, which is none of \<open>CharacterClassOpen\<close>,
  \<open>CharacterClassClose\<close>, \<open>CharacterClassIntersector\<close>.
\<close>

definition rangeEligible :: "state \<Rightarrow> addr \<Rightarrow> token option \<Rightarrow> bool" where
  "rangeEligible s p nextToken \<longleftrightarrow>
     elements (heap s p) \<noteq> [] \<and>
     ntype (heap s (last (elements (heap s p)))) \<noteq> CharacterClass \<and>
     (\<exists>nt. nextToken = Some nt \<and> (\<forall>neg. nt \<noteq> Tok_CharacterClassOpen neg) \<and>
        nt \<noteq> Tok_CharacterClassClose \<and> nt \<noteq> Tok_CharacterClassIntersector)"

text \<open>
  A recorded subroutine resolves: a number from 1 to the number of capturing groups, or a
  name of the map that is not registered for more than one group.
\<close>

definition resolves :: "state \<Rightarrow> addr \<Rightarrow> bool" where
  "resolves s sub \<longleftrightarrow>
     (case ref (heap s sub) of
        Some (RefNum r) \<Rightarrow> 1 \<le> r \<and> r \<le> int (length (capturingGroups s))
      | Some (RefName nm) \<Rightarrow>
          (\<exists>groups. map_of (namedGroups s) nm = Some groups \<and> length groups \<le> 1)
      | None \<Rightarrow> False)"

text \<open>
  The mergers of an outer and an inner group that \<open>getOptimizedGroup\<close> accepts: not an
  atomic outer group around flags, and not outer flags around an atomic group or around flags.
\<close>

definition groupsMerge :: "node \<Rightarrow> node \<Rightarrow> bool" where
  "groupsMerge outer inner \<longleftrightarrow>
     \<not> (atomic outer \<and> gflags inner \<noteq> None) \<and>
     \<not> (gflags outer \<noteq> None \<and> (atomic inner \<or> gflags inner \<noteq> None))"

subsection \<open>Concrete inputs\<close>

text \<open>
  An instance of the parameters, for the closed statements: the kinds the specification
  lists, no POSIX names, no property map, and every non-empty name a valid group name.
\<close>

definition ascii_env :: env where
  "ascii_env =
     \<lparr>TokenCharacterSetKinds =
        [''any'', ''digit'', ''hex'', ''posix'', ''property'', ''space'', ''word''],
      TokenDirectiveKinds = [''flags'', ''keep''],
      normalize = (\<lambda>x. x),
      PosixProperties = (\<lambda>x. False),
      JsUnicodePropertiesMap = (\<lambda>x. None),
      isValidJsGroupName = (\<lambda>x. x \<noteq> []),
      reformatScriptName = (\<lambda>x. x)\<rparr>"

definition no_flags :: flags_input where
  "no_flags = \<lparr>in_ignoreCase = False, in_dotAll = False, in_extended = False\<rparr>"

text \<open>The store and the state of a result that is not an error.\<close>

definition state_of :: "(addr \<times> state) result \<Rightarrow> state" where
  "state_of r = snd (projr r)"

definition heap_of :: "(addr \<times> state) result \<Rightarrow> addr \<Rightarrow> node" where
  "heap_of r = heap (snd (projr r))"

text \<open>The tokens of \<^verbatim>\<open>(?:(a))\<close>, \<^verbatim>\<open>(?:(?:a))\<close>, \<^verbatim>\<open>(?>(?i:a))\<close>, \<^verbatim>\<open>(a)\g<-1>\<close>,
  \<^verbatim>\<open>[a]\<close>, of a class around an alternator, of \<^verbatim>\<open>a\<close> and of \<^verbatim>\<open>(?<=a\<close>.\<close>

definition tokens_group_capture :: "token list" where
  "tokens_group_capture =
     [Tok_GroupOpen GK_group 0 None None False, Tok_GroupOpen GK_capturing 1 None None False,
      Tok_Character 97, Tok_GroupClose, Tok_GroupClose]"

definition tokens_group_group :: "token list" where
  "tokens_group_group =
     [Tok_GroupOpen GK_group 0 None None False, Tok_GroupOpen GK_group 0 None None False,
      Tok_Character 97, Tok_GroupClose, Tok_GroupClose]"

definition tokens_atomic_flags :: "token list" where
  "tokens_atomic_flags =
     [Tok_GroupOpen GK_atomic 0 None None False,
      Tok_GroupOpen GK_group 0 None (Some \<lparr>enable = [''i''], disable = []\<rparr>) False,
      Tok_Character 97, Tok_GroupClose, Tok_GroupClose]"

definition tokens_capture_subroutine :: "token list" where
  "tokens_capture_subroutine =
     [Tok_GroupOpen GK_capturing 1 None None False, Tok_Character 97, Tok_GroupClose,
      Tok_Subroutine (backslash # ''g<-1>'')]"

definition tokens_class_a :: "token list" where
  "tokens_class_a = [Tok_CharacterClassOpen False, Tok_Character 97, Tok_CharacterClassClose]"


definition state_a :: state where
  "state_a = state_of (walkTokens ascii_env [Tok_Character 97] no_flags False)"

text \<open>The state after the loop on no tokens: node 2 is the top-level alternative, empty.\<close>

definition state_empty :: state where
  "state_empty = state_of (walkTokens ascii_env [] no_flags False)"

text \<open>
  The tokens of \<^verbatim>\<open>[z]\<close> and \<^verbatim>\<open>[z-a]\<close>, and the state inside the class of \<^verbatim>\<open>[z]\<close> in front
  of the closing bracket: node 4 is the class, node 5 its intersection, node 6 the class
  under the intersection that receives the elements, node 7 the character.
\<close>

definition tokens_class_z :: "token list" where
  "tokens_class_z = [Tok_CharacterClassOpen False, Tok_Character 122, Tok_CharacterClassClose]"

definition tokens_class_z_a :: "token list" where
  "tokens_class_z_a =
     [Tok_CharacterClassOpen False, Tok_Character 122, Tok_CharacterClassHyphen,
      Tok_Character 97, Tok_CharacterClassClose]"

text \<open>The tokens of \<^verbatim>\<open>[a&&b]\<close>.\<close>

definition tokens_class_and :: "token list" where
  "tokens_class_and =
     [Tok_CharacterClassOpen False, Tok_Character 97, Tok_CharacterClassIntersector,
      Tok_Character 98, Tok_CharacterClassClose]"

definition state_class_z :: state where
  "state_class_z =
     projr (classBody (walk ascii_env tokens_class_z False (parse_fuel tokens_class_z))
       (parse_fuel tokens_class_z) tokens_class_z 5
       ((snd (createCharacterClass (Some 2) False
          (snd (createRegExp None no_flags initial))))\<lparr>current := 1\<rparr>))"

definition tokens_lookbehind_a :: "token list" where
  "tokens_lookbehind_a =
     [Tok_GroupOpen GK_lookbehind 0 None None False, Tok_Character 97, Tok_GroupClose]"

text \<open>The state inside the lookbehind of \<^verbatim>\<open>(?<=a)\<close>, in front of the closing parenthesis.\<close>

definition state_lookbehind_a :: state where
  "state_lookbehind_a =
     projr (groupBody (walk ascii_env tokens_lookbehind_a False (parse_fuel tokens_lookbehind_a))
       (parse_fuel tokens_lookbehind_a) tokens_lookbehind_a 4
       ((snd (projr (createByGroupKind ascii_env (Some 2)
          (Tok_GroupOpen GK_lookbehind 0 None None False)
          (snd (createRegExp None no_flags initial)))))\<lparr>current := 1\<rparr>))"

section \<open>The tree in the store\<close>

text \<open>
  The notions for the claims about the whole tree: what a node holds, the nodes of the
  tree, and the invariants that the parser keeps while it builds the tree in the store.
\<close>

text \<open>
  The nodes a node holds, over all its child containers: \<open>elements\<close>,
  \<open>alternatives\<close>, \<open>classes\<close>, \<open>pattern\<close>, \<open>flags\<close>, \<open>element\<close>, \<open>min\<close> and
  \<open>max\<close>.
\<close>

definition kids :: "node \<Rightarrow> addr list" where
  "kids n =
     elements n @ alternatives n @ classes n @
     (case pattern n of None \<Rightarrow> [] | Some a \<Rightarrow> [a]) @
     (case flags n of None \<Rightarrow> [] | Some a \<Rightarrow> [a]) @
     (case element n of None \<Rightarrow> [] | Some a \<Rightarrow> [a]) @
     (case rmin n of None \<Rightarrow> [] | Some a \<Rightarrow> [a]) @
     (case rmax n of None \<Rightarrow> [] | Some a \<Rightarrow> [a])"

text \<open>The nodes of the tree below \<open>r\<close>: \<open>r\<close>, and what a node of the tree holds.\<close>

inductive inAst :: "(addr \<Rightarrow> node) \<Rightarrow> addr \<Rightarrow> addr \<Rightarrow> bool" for h r where
  root: "inAst h r r"
| child: "inAst h r a \<Longrightarrow> c \<in> set (kids (h a)) \<Longrightarrow> inAst h r c"

text \<open>
  The \<open>parent\<close> of a held node \<open>c\<close> is its holder \<open>a\<close>; or the holder is a
  \<open>CharacterClass\<close> and the held node an \<open>Alternative\<close>, which is what the walker
  returns for an \<open>Alternator\<close> token inside a class: it is pushed onto the elements of
  the class, and made by \<open>createAlternative(parent.parent)\<close>.
\<close>

definition parentOK :: "(addr \<Rightarrow> node) \<Rightarrow> addr \<Rightarrow> addr \<Rightarrow> bool" where
  "parentOK h a c \<longleftrightarrow>
     parent (h c) = Some a \<or> (ntype (h a) = CharacterClass \<and> ntype (h c) = Alternative)"

text \<open>No element of the class is a \<open>CharacterClassIntersection\<close>.\<close>

definition noIntersection :: "(addr \<Rightarrow> node) \<Rightarrow> addr \<Rightarrow> bool" where
  "noIntersection h a \<longleftrightarrow> (\<forall>e\<in>set (elements (h a)). ntype (h e) \<noteq> CharacterClassIntersection)"

text \<open>
  The two shapes of a class: its one element is a \<open>CharacterClassIntersection\<close> of two
  or more classes, or it has no \<open>CharacterClassIntersection\<close> among its elements.
\<close>

definition classShape :: "(addr \<Rightarrow> node) \<Rightarrow> addr \<Rightarrow> bool" where
  "classShape h a \<longleftrightarrow>
     (\<exists>i. elements (h a) = [i] \<and> ntype (h i) = CharacterClassIntersection \<and>
          2 \<le> length (classes (h i))) \<or>
     noIntersection h a"

text \<open>No node of the set \<open>L\<close> holds \<open>c\<close>.\<close>

definition unheld :: "addr set \<Rightarrow> (addr \<Rightarrow> node) \<Rightarrow> addr \<Rightarrow> bool" where
  "unheld L h c \<longleftrightarrow> (\<forall>a\<in>L. c \<notin> set (kids (h a)))"

text \<open>
  The invariant of the parser on the store. \<open>L\<close> is the set of live nodes: those that
  are part of the tree under construction (a node that the optimizer or the class parser
  drops leaves it). Live nodes are allocated; they hold live nodes only; a held node has
  its holder for parent (\<open>parentOK\<close>); no node is held twice, by one holder or by two;
  a live class has one of the two shapes; no node holds itself.
\<close>

definition wellFormed :: "addr set \<Rightarrow> (addr \<Rightarrow> node) \<Rightarrow> nat \<Rightarrow> bool" where
  "wellFormed L h n \<longleftrightarrow>
     (\<forall>a\<in>L. a < n) \<and>
     (\<forall>a\<in>L. set (kids (h a)) \<subseteq> L) \<and>
     (\<forall>a\<in>L. \<forall>c\<in>set (kids (h a)). parentOK h a c) \<and>
     (\<forall>a\<in>L. distinct (kids (h a))) \<and>
     (\<forall>a\<in>L. \<forall>b\<in>L. \<forall>c. c \<in> set (kids (h a)) \<longrightarrow> c \<in> set (kids (h b)) \<longrightarrow> a = b) \<and>
     (\<forall>a\<in>L. ntype (h a) = CharacterClass \<longrightarrow> classShape h a) \<and>
     (\<forall>a\<in>L. a \<notin> set (kids (h a)))"

text \<open>
  What one call of the walker with parent \<open>p\<close> does to the store, from \<open>s\<close> with live
  nodes \<open>L\<close> to \<open>s'\<close> with live nodes \<open>L'\<close> and the result \<open>r\<close>: the invariant holds
  after it; the live nodes are the old ones and some new ones; the result is new, live,
  held by nobody, and no \<open>CharacterClassIntersection\<close>; old nodes other than \<open>p\<close> and
  its elements are as they were; \<open>p\<close> may have lost elements and is otherwise as it
  was, and is as it was when the result is a \<open>Character\<close>; no old node changed its
  type; an old node that nobody held and that is no element of \<open>p\<close> is still held by
  nobody.
\<close>

definition stepped :: "addr set \<Rightarrow> state \<Rightarrow> addr \<Rightarrow> addr \<Rightarrow> addr set \<Rightarrow> state \<Rightarrow> bool" where
  "stepped L s p r L' s' \<longleftrightarrow>
     wellFormed L' (heap s') (next_addr s') \<and> L \<subseteq> L' \<and> L' \<subseteq> L \<union> {next_addr s ..< next_addr s'} \<and>
     next_addr s \<le> r \<and> r \<in> L' \<and> unheld L' (heap s') r \<and>
     ntype (heap s' r) \<noteq> CharacterClassIntersection \<and>
     (\<forall>a<next_addr s. a \<noteq> p \<longrightarrow> a \<notin> set (elements (heap s p)) \<longrightarrow> heap s' a = heap s a) \<and>
     (\<exists>es. heap s' p = (heap s p)\<lparr>elements := es\<rparr> \<and> set es \<subseteq> set (elements (heap s p))) \<and>
     (ntype (heap s' r) = Character \<longrightarrow> heap s' p = heap s p) \<and>
     (\<forall>a<next_addr s. ntype (heap s' a) = ntype (heap s a)) \<and>
     (\<forall>c<next_addr s. c \<notin> set (elements (heap s p)) \<longrightarrow> unheld L (heap s) c \<longrightarrow>
        unheld L' (heap s') c)"

text \<open>
  With the parent of the result: an \<open>Alternative\<close> comes from an \<open>Alternator\<close> token
  and has the parent of \<open>p\<close> for its parent; any other result has \<open>p\<close>.
\<close>

definition walked ::
  "token list \<Rightarrow> addr set \<Rightarrow> state \<Rightarrow> addr \<Rightarrow> addr \<Rightarrow> addr set \<Rightarrow> state \<Rightarrow> bool" where
  "walked tokens L s p r L' s' \<longleftrightarrow>
     stepped L s p r L' s' \<and>
     (if ntype (heap s' r) = Alternative
      then parent (heap s' r) = parent (heap s p) \<and>
           at_index tokens (current s) = Some Tok_Alternator
      else parent (heap s' r) = Some p)"

text \<open>A walker that keeps the invariant, as a property of the function.\<close>

definition sound :: "token list \<Rightarrow> walker \<Rightarrow> bool" where
  "sound tokens w \<longleftrightarrow>
     (\<forall>L s p r s'. wellFormed L (heap s) (next_addr s) \<longrightarrow> p \<in> L \<longrightarrow> w s p = Inr (r, s') \<longrightarrow>
        (\<exists>L'. walked tokens L s p r L' s'))"

text \<open>
  The invariant of the body loop of \<open>parseGroupOpen\<close> for the group \<open>G\<close>, which is
  not live before the loop ends: its alternatives are live, held by nobody else, have
  \<open>G\<close> for parent, and they and their elements were allocated after \<open>G\<close>.
\<close>

definition groupInv :: "addr \<Rightarrow> addr set \<Rightarrow> state \<Rightarrow> bool" where
  "groupInv G L s \<longleftrightarrow>
     wellFormed L (heap s) (next_addr s) \<and> G \<notin> L \<and> G < next_addr s \<and>
     alternatives (heap s G) \<noteq> [] \<and> set (alternatives (heap s G)) \<subseteq> L \<and>
     distinct (alternatives (heap s G)) \<and> kids (heap s G) = alternatives (heap s G) \<and>
     (\<forall>a\<in>set (alternatives (heap s G)).
        parent (heap s a) = Some G \<and> ntype (heap s a) = Alternative \<and>
        unheld L (heap s) a \<and> G < a \<and> (\<forall>e\<in>set (elements (heap s a)). G < e))"

text \<open>
  What a body loop for the node \<open>G\<close> does to the rest of the store: nodes allocated
  before \<open>G\<close> are as they were, and so is the parent of \<open>G\<close>.
\<close>

definition grown :: "addr \<Rightarrow> addr set \<Rightarrow> state \<Rightarrow> addr set \<Rightarrow> state \<Rightarrow> bool" where
  "grown G L s L' s' \<longleftrightarrow>
     L \<subseteq> L' \<and> L' \<subseteq> L \<union> {next_addr s ..< next_addr s'} \<and> next_addr s \<le> next_addr s' \<and>
     (\<forall>a<G. heap s' a = heap s a) \<and>
     parent (heap s' G) = parent (heap s G) \<and>
     (\<forall>a<next_addr s. ntype (heap s' a) = ntype (heap s a)) \<and>
     (\<forall>c<G. unheld L (heap s) c \<longrightarrow> unheld L' (heap s') c)"

text \<open>
  The invariant of the body loop of \<open>parseCharacterClassOpen\<close> for the intersection
  \<open>I\<close>, and of the optimizer after it: the classes of \<open>I\<close> are live, held by nobody
  else, of type \<open>CharacterClass\<close> with \<open>I\<close> for parent, and allocated after \<open>I\<close>.
\<close>

definition classInv :: "addr \<Rightarrow> addr set \<Rightarrow> state \<Rightarrow> bool" where
  "classInv I L s \<longleftrightarrow>
     wellFormed L (heap s) (next_addr s) \<and> I \<notin> L \<and> I < next_addr s \<and>
     ntype (heap s I) = CharacterClassIntersection \<and>
     classes (heap s I) \<noteq> [] \<and> set (classes (heap s I)) \<subseteq> L \<and>
     distinct (classes (heap s I)) \<and> kids (heap s I) = classes (heap s I) \<and>
     (\<forall>c\<in>set (classes (heap s I)).
        parent (heap s c) = Some I \<and> ntype (heap s c) = CharacterClass \<and>
        unheld L (heap s) c \<and> I < c)"

text \<open>
  In the body loop the classes of \<open>I\<close> have no \<open>CharacterClassIntersection\<close> among
  their elements, which were allocated after \<open>I\<close>.
\<close>

definition bases :: "addr \<Rightarrow> state \<Rightarrow> bool" where
  "bases I s \<longleftrightarrow>
     (\<forall>c\<in>set (classes (heap s I)).
        noIntersection (heap s) c \<and> (\<forall>e\<in>set (elements (heap s c)). I < e))"

text \<open>
  In the loop of \<open>optimizeCharacterClassIntersection\<close>, at index \<open>k\<close>: the elements of
  the classes from \<open>k\<close> on were allocated after \<open>I\<close>.
\<close>

definition young :: "addr \<Rightarrow> nat \<Rightarrow> state \<Rightarrow> bool" where
  "young I k s \<longleftrightarrow>
     (\<forall>j. k \<le> j \<longrightarrow> j < length (classes (heap s I)) \<longrightarrow>
        (\<forall>e\<in>set (elements (heap s (classes (heap s I) ! j))). I < e))"

text \<open>
  What the optimizer of the intersection \<open>I\<close> does to the rest of the store: it drops
  live nodes allocated after \<open>I\<close> only, allocates nothing, and leaves the nodes
  allocated before \<open>I\<close>, every type, and the number of classes as they were.
\<close>

definition shrunk :: "addr \<Rightarrow> addr set \<Rightarrow> state \<Rightarrow> addr set \<Rightarrow> state \<Rightarrow> bool" where
  "shrunk I L s L' s' \<longleftrightarrow>
     L' \<subseteq> L \<and> (\<forall>a\<in>L. a < I \<longrightarrow> a \<in> L') \<and> next_addr s' = next_addr s \<and>
     (\<forall>a<I. heap s' a = heap s a) \<and>
     parent (heap s' I) = parent (heap s I) \<and>
     (\<forall>a. ntype (heap s' a) = ntype (heap s a)) \<and>
     (\<forall>c<I. unheld L (heap s) c \<longrightarrow> unheld L' (heap s') c) \<and>
     length (classes (heap s' I)) = length (classes (heap s I))"

text \<open>
  A call that allocates one node without children, of parent \<open>po\<close>, and changes nothing
  else in the store; \<open>alt\<close> tells whether the node is an \<open>Alternative\<close>.
\<close>

definition leaf :: "state \<Rightarrow> addr option \<Rightarrow> bool \<Rightarrow> addr \<Rightarrow> state \<Rightarrow> bool" where
  "leaf s po alt r s' \<longleftrightarrow>
     r = next_addr s \<and> next_addr s' = Suc (next_addr s) \<and>
     (\<exists>x. heap s' = (heap s)(next_addr s := x) \<and> kids x = [] \<and>
        ntype x \<noteq> CharacterClassIntersection \<and> parent x = po \<and>
        (ntype x = Alternative) = alt)"

text \<open>
  The invariant of the loop of \<open>parse\<close>: the root, its pattern and the current
  top-level alternative are live, the root is held by nobody, and the alternative is an
  \<open>Alternative\<close> of the pattern.
\<close>

definition topInv :: "addr \<Rightarrow> addr \<Rightarrow> addr \<Rightarrow> addr set \<Rightarrow> state \<Rightarrow> bool" where
  "topInv ast pat topAlt L s \<longleftrightarrow>
     wellFormed L (heap s) (next_addr s) \<and> ast \<in> L \<and> pat \<in> L \<and> topAlt \<in> L \<and>
     unheld L (heap s) ast \<and> pattern (heap s ast) = Some pat \<and>
     topAlt \<in> set (alternatives (heap s pat)) \<and>
     parent (heap s topAlt) = Some pat \<and> ntype (heap s topAlt) = Alternative"

section \<open>Properties\<close>

declare topLevel.simps [simp del] classBody.simps [simp del] groupBody.simps [simp del]

subsection \<open>Running the parser on concrete tokens\<close>

lemmas store_defs = new_node_def upd_def getNodeBase_def at_index_def at_last_def

lemmas create_defs =
  createAlternative_def withInitialAlternative_def createBackreference_def
  createCapturingGroup_def createCharacter_def createCharacterClassBase_def
  createCharacterClassIntersection_def withInitialIntersection_def createCharacterClass_def
  createCharacterClassRange_def createFlags_def createGroup_def createPattern_def
  createRegExp_def createSubroutine_def createByGroupKind_def createAssertionFromToken_def

lemmas run_defs =
  parse_def walkTokens_def parse_fuel_def initial_def postPass_def topLevel.simps walkToken_def
  parseGroupOpen_def groupBody.simps parseCharacterClassOpen_def classBody.simps
  getOptimizedGroup_def parseSubroutine_def checkSubroutine_def store_defs create_defs

lemma run_group_capture:
  "\<exists>s. parse E tokens_group_capture fl True = Inr (0, s) \<and>
     pattern (heap s 0) = Some 1 \<and> alternatives (heap s 1) = [2] \<and>
     elements (heap s 2) = [4] \<and> ntype (heap s 4) = Group \<and> parent (heap s 4) = Some 2 \<and>
     alternatives (heap s 4) = [5] \<and> elements (heap s 5) = [6] \<and>
     ntype (heap s 6) = CapturingGroup \<and> number (heap s 6) = 1 \<and> parent (heap s 6) = Some 5"
  by (simp add: run_defs tokens_group_capture_def)

lemma run_group_group:
  "\<exists>s. parse E tokens_group_group fl True = Inr (0, s) \<and>
     pattern (heap s 0) = Some 1 \<and> alternatives (heap s 1) = [2] \<and>
     elements (heap s 2) = [6] \<and> ntype (heap s 6) = Group \<and> parent (heap s 6) = Some 2 \<and>
     alternatives (heap s 6) = [7] \<and> elements (heap s 7) = [8] \<and>
     ntype (heap s 8) = Character \<and> parent (heap s 4) = Some 2"
  by (simp add: run_defs tokens_group_group_def)

lemma run_atomic_flags:
  "\<exists>s. parse E tokens_atomic_flags fl True = Inr (0, s) \<and>
     elements (heap s 2) = [4] \<and> ntype (heap s 4) = Group \<and> atomic (heap s 4) \<and>
     alternatives (heap s 4) = [5] \<and> elements (heap s 5) = [6] \<and>
     ntype (heap s 6) = Group \<and> gflags (heap s 6) = Some \<lparr>enable = [''i''], disable = []\<rparr> \<and>
     \<not> atomic (heap s 6) \<and> parent (heap s 6) = Some 5"
  by (simp add: run_defs tokens_atomic_flags_def)

lemma run_capture_subroutine:
  "\<exists>s. parse E tokens_capture_subroutine fl optimize = Inr (0, s) \<and>
     elements (heap s 2) = [4, 7] \<and> ntype (heap s 4) = CapturingGroup \<and>
     ntype (heap s 7) = Subroutine \<and> ref (heap s 7) = Some (RefNum 1) \<and>
     hasNumberedGroupRef s \<and> postPass s = None"
  by (cases optimize)
     (simp_all add: run_defs tokens_capture_subroutine_def numberedRef_def slice_def is_digit_def
        to_number_def backslash_def)

lemma run_class_a:
  "\<exists>s. parse E tokens_class_a fl False = Inr (0, s) \<and>
     pattern (heap s 0) = Some 1 \<and> alternatives (heap s 1) = [2] \<and>
     elements (heap s 2) = [6] \<and> ntype (heap s 6) = CharacterClass \<and>
     elements (heap s 6) = [7] \<and> ntype (heap s 7) = Character"
  by (simp add: run_defs tokens_class_a_def)


lemma state_a_facts:
  "next_addr state_a = 5 \<and> elements (heap state_a 2) = [4] \<and>
   parent (heap state_a 2) = Some (Suc 0) \<and> parent (heap state_a (Suc 0)) = Some 0 \<and>
   parent (heap state_a 0) = None \<and> ntype (heap state_a 4) = Character \<and>
   cvalue (heap state_a 4) = 97 \<and> parent (heap state_a 4) = Some 2 \<and>
   ntype (heap state_a 2) = Alternative \<and> ntype (heap state_a (Suc 0)) = Pattern \<and>
   ntype (heap state_a 0) = RegExp \<and> capturingGroups state_a = [] \<and>
   namedGroups state_a = [] \<and> subroutines state_a = [] \<and> \<not> hasNumberedGroupRef state_a"
  by (simp add: state_a_def state_of_def run_defs)

lemma state_lookbehind_a_facts:
  "next_addr state_lookbehind_a = 7 \<and> elements (heap state_lookbehind_a 5) = [6] \<and>
   parent (heap state_lookbehind_a 5) = Some 4 \<and> parent (heap state_lookbehind_a 4) = Some 2 \<and>
   parent (heap state_lookbehind_a 2) = Some (Suc 0) \<and>
   parent (heap state_lookbehind_a (Suc 0)) = Some 0 \<and>
   parent (heap state_lookbehind_a 0) = None \<and> ntype (heap state_lookbehind_a 4) = Assertion \<and>
   kind (heap state_lookbehind_a 4) = Some lookbehind \<and>
   ntype (heap state_lookbehind_a 5) = Alternative"
  by (simp add: state_lookbehind_a_def tokens_lookbehind_a_def run_defs)

lemma state_empty_facts:
  "next_addr state_empty = 4 \<and> elements (heap state_empty 2) = [] \<and>
   ntype (heap state_empty 2) = Alternative \<and>
   parent (heap state_empty 2) = Some (Suc 0) \<and> parent (heap state_empty (Suc 0)) = Some 0 \<and>
   parent (heap state_empty 0) = None"
  by (simp add: state_empty_def state_of_def run_defs)

lemma state_class_z_facts:
  "next_addr state_class_z = 8 \<and> elements (heap state_class_z 6) = [7] \<and>
   ntype (heap state_class_z 6) = CharacterClass \<and> parent (heap state_class_z 6) = Some 5 \<and>
   ntype (heap state_class_z 5) = CharacterClassIntersection \<and>
   classes (heap state_class_z 5) = [6] \<and>
   ntype (heap state_class_z 7) = Character \<and> cvalue (heap state_class_z 7) = 122 \<and>
   parent (heap state_class_z 7) = Some 6"
  by (simp add: state_class_z_def tokens_class_z_def run_defs)

lemma run_class_z_a:
  "parse E tokens_class_z_a fl optimize = Inl ClassRangeOutOfOrder"
  by (simp add: run_defs tokens_class_z_a_def parseCharacterClassHyphen_def hasElements_def
        isCharacterClassOpen_def)

subsection \<open>The numbered-reference expressions\<close>

lemma takeWhile_eq_replicate:
  "takeWhile (\<lambda>c. c = x) xs = replicate (length (takeWhile (\<lambda>c. c = x) xs)) x"
  by (induction xs) auto

lemma dropWhile_zeros:
  "num \<noteq> [] \<Longrightarrow> hd num \<noteq> CHR ''0'' \<Longrightarrow>
   dropWhile (\<lambda>c. c = CHR ''0'') (replicate k (CHR ''0'') @ num) = num"
  by (induction k) (auto simp: neq_Nil_conv)

lemma numberedRef_match:
  assumes "matchesNumbered signs r sign num" and "\<forall>c\<in>set signs. \<not> is_digit c"
  shows "numberedRef signs r = Some (sign, num)"
proof -
  from assms(1) obtain k where r: "r = sign @ replicate k (CHR ''0'') @ num"
    and sg: "sign = [] \<or> (\<exists>c. c \<in> set signs \<and> sign = [c])"
    and num: "num \<noteq> []" "hd num \<in> set ''123456789''" "list_all is_digit (tl num)"
    by (auto simp: matchesNumbered_def)
  from num have nz: "hd num \<noteq> CHR ''0''" and dg: "is_digit (hd num)"
    by (auto simp: is_digit_def)
  from num dg have alld: "list_all is_digit num"
    by (cases num) auto
  have first: "sign = [] \<Longrightarrow> r \<noteq> [] \<and> is_digit (hd r)"
    using r num dg by (cases k) (auto simp: is_digit_def)
  have sgn: "(case r of [] \<Rightarrow> [] | c # _ \<Rightarrow> if c \<in> set signs then [c] else []) = sign"
  proof (cases "sign = []")
    case True
    with first assms(2) show ?thesis by (cases r) auto
  next
    case False
    with sg r show ?thesis by auto
  qed
  have dw: "dropWhile (\<lambda>c. c = CHR ''0'') (drop (length sign) r) = num"
    using r num(1) nz by (simp add: dropWhile_zeros)
  show ?thesis
    unfolding numberedRef_def Let_def sgn dw using num(1) alld by simp
qed

lemma numberedRef_Some:
  assumes "numberedRef signs r = Some (sign, num)"
  shows "matchesNumbered signs r sign num"
proof -
  define sg where "sg = (case r of [] \<Rightarrow> [] | c # _ \<Rightarrow> if c \<in> set signs then [c] else [])"
  define rest where "rest = drop (length sg) r"
  from assms have eq: "sign = sg" "num = dropWhile (\<lambda>c. c = CHR ''0'') rest"
    and ne: "num \<noteq> []" and dg: "list_all is_digit num"
    by (auto simp: numberedRef_def sg_def rest_def Let_def split: if_splits)
  have r: "r = sg @ rest"
    by (cases r) (auto simp: sg_def rest_def)
  have "rest = takeWhile (\<lambda>c. c = CHR ''0'') rest @ num"
    using eq by simp
  then have "rest = replicate (length (takeWhile (\<lambda>c. c = CHR ''0'') rest)) (CHR ''0'') @ num"
    using takeWhile_eq_replicate [of "CHR ''0''" rest] by simp
  with r eq have ex: "\<exists>k. r = sign @ replicate k (CHR ''0'') @ num" by auto
  have sgs: "sign = [] \<or> (\<exists>c. c \<in> set signs \<and> sign = [c])"
    unfolding eq by (cases r) (auto simp: sg_def)
  have "hd num \<noteq> CHR ''0''"
    using ne eq(2) hd_dropWhile [of "\<lambda>c. c = CHR ''0''" rest] by auto
  moreover have "is_digit (hd num)" using ne dg by (cases num) auto
  ultimately have hd: "hd num \<in> set ''123456789''" by (auto simp: is_digit_def)
  have "list_all is_digit (tl num)" using ne dg by (cases num) auto
  with ex sgs ne hd show ?thesis by (simp add: matchesNumbered_def)
qed

lemma numberedRef_None:
  assumes "\<forall>c\<in>set signs. \<not> is_digit c"
  shows "numberedRef signs r = None \<longleftrightarrow> (\<forall>sign num. \<not> matchesNumbered signs r sign num)"
  using numberedRef_match [OF _ assms] numberedRef_Some
  by (metis not_Some_eq option.distinct(1) surj_pair)


lemma slice_inner:
  "slice (c1 # c2 # c3 # inner @ [c4]) 3 (Some (- 1)) = inner"
  by (simp add: slice_def)


subsection \<open>Ancestors\<close>

lemma ancestor_parent_cases:
  "ancestor h a b \<longleftrightarrow> (\<exists>c. parent (h a) = Some c \<and> (b = c \<or> ancestor h c b))"
  by (auto elim: ancestor.cases intro: ancestor.intros)

lemma isWithin_spine:
  "spine h a \<Longrightarrow> a < n \<Longrightarrow>
   isWithin n h a t k =
     Some (\<exists>b. ancestor h a b \<and> ntype (h b) = t \<and>
             (case k of None \<Rightarrow> True | Some kk \<Rightarrow> kk = [] \<or> kind (h b) = Some kk))"
proof (induction arbitrary: n rule: spine.induct)
  case (root a)
  then obtain m where "n = Suc m" by (cases n) auto
  with root show ?case
    by (subst ancestor_parent_cases) simp
next
  case (up a b)
  then obtain m where n: "n = Suc m" by (cases n) auto
  with up have "b < m" by simp
  from up.IH [OF this] n up.hyps(1) show ?case
    by (subst ancestor_parent_cases) auto
qed

lemma spine_below: "spine h a \<Longrightarrow> ancestor h a b \<Longrightarrow> b < a"
proof (induction rule: spine.induct)
  case (root a)
  then show ?case by (subst (asm) ancestor_parent_cases) simp
next
  case (up a c)
  from up.prems up.hyps(1) have "b = c \<or> ancestor h c b"
    by (subst (asm) ancestor_parent_cases) simp
  with up show ?case by auto
qed

lemma spine_agree:
  "spine h a \<Longrightarrow> (\<forall>b\<le>a. parent (h' b) = parent (h b)) \<Longrightarrow> spine h' a"
proof (induction rule: spine.induct)
  case (root a)
  then show ?case by (auto intro: spine.root)
next
  case (up a b)
  then have "spine h' b" by auto
  with up show ?case by (auto intro: spine.up)
qed

lemma ancestor_agree:
  "ancestor h a b \<Longrightarrow> spine h a \<Longrightarrow> (\<forall>c\<le>a. parent (h' c) = parent (h c)) \<Longrightarrow> ancestor h' a b"
proof (induction rule: ancestor.induct)
  case (parent a b)
  then show ?case by (auto intro: ancestor.parent)
next
  case (step a c b)
  from step.prems(1) step.hyps(1) have "c < a" "spine h c"
    by (auto elim: spine.cases)
  with step have "ancestor h' c b" by auto
  with step show ?case by (auto intro: ancestor.step)
qed

lemma ancestor_agree_iff:
  assumes "spine h a" and "\<forall>c\<le>a. parent (h' c) = parent (h c)"
  shows "ancestor h' a b \<longleftrightarrow> ancestor h a b"
proof
  assume ab: "ancestor h a b"
  show "ancestor h' a b" by (rule ancestor_agree [OF ab assms])
next
  assume a: "ancestor h' a b"
  from assms have "spine h' a" by (rule spine_agree)
  from ancestor_agree [OF a this] assms(2) show "ancestor h a b" by simp
qed


lemma isWithin_agree:
  "spine h a \<Longrightarrow> (\<forall>b\<le>a. h' b = h b) \<Longrightarrow> isWithin n h' a t k = isWithin n h a t k"
proof (induction arbitrary: n rule: spine.induct)
  case (root a)
  then show ?case by (cases n) auto
next
  case (up a b)
  then have ih: "isWithin m h' b t k = isWithin m h b t k" for m by auto
  from up.hyps up.prems have eq: "h' a = h a" "h' b = h b" by auto
  show ?case
  proof (cases n)
    case 0
    then show ?thesis by simp
  next
    case (Suc m)
    with up.hyps(1) eq ih [of m] show ?thesis by (cases k) auto
  qed
qed

lemma isWithin_new:
  assumes "spine h p" and "p < q" and "parent n = Some p"
  shows "isWithin (Suc q) (h(q := n)) q Assertion (Some lookbehind) =
           Some (\<exists>b. (b = p \<or> ancestor h p b) \<and> isLookbehind (h b))"
proof -
  have agree: "\<forall>b\<le>p. (h(q := n)) b = h b" using assms(2) by simp
  have "isWithin q (h(q := n)) p Assertion (Some lookbehind) =
          isWithin q h p Assertion (Some lookbehind)"
    by (rule isWithin_agree [OF assms(1) agree])
  also have "\<dots> = Some (\<exists>b. ancestor h p b \<and> isLookbehind (h b))"
    using isWithin_spine [OF assms(1,2)] by (simp add: isLookbehind_def lookbehind_def)
  finally show ?thesis
    using assms(2,3) by (auto simp: isLookbehind_def lookbehind_def)
qed


subsection \<open>The checks after the loop\<close>

lemma checkSubroutine_None: "checkSubroutine s sub = None \<longleftrightarrow> resolves s sub"
  by (auto simp: checkSubroutine_def resolves_def split: option.splits reference.splits)

lemma checkSubroutines_None:
  "checkSubroutines s subs = None \<longleftrightarrow> (\<forall>sub\<in>set subs. resolves s sub)"
  by (induction subs) (auto simp: checkSubroutine_None [symmetric] split: option.splits)

lemma checkSubroutines_first:
  "i < length subs \<Longrightarrow> \<forall>j<i. resolves s (subs ! j) \<Longrightarrow> \<not> resolves s (subs ! i) \<Longrightarrow>
   checkSubroutines s subs = checkSubroutine s (subs ! i)"
proof (induction subs arbitrary: i)
  case Nil
  then show ?case by simp
next
  case (Cons x xs)
  show ?case
  proof (cases i)
    case 0
    with Cons.prems show ?thesis
      by (auto simp: checkSubroutine_None [symmetric] split: option.splits)
  next
    case (Suc k)
    with Cons.prems have "resolves s x" by auto
    moreover from Suc Cons.prems have "checkSubroutines s xs = checkSubroutine s (xs ! k)"
      by (intro Cons.IH) auto
    ultimately show ?thesis using Suc by (simp add: checkSubroutine_None [symmetric])
  qed
qed

lemma isCharacterClassOpen_iff:
  "isCharacterClassOpen t \<longleftrightarrow> (\<exists>neg. t = Tok_CharacterClassOpen neg)"
  by (cases t) (simp_all add: isCharacterClassOpen_def)

lemma hyphen_literal:
  "hasElements (heap s p) \<Longrightarrow> \<not> rangeEligible s p nextToken \<Longrightarrow>
   parseCharacterClassHyphen w s p nextToken = Inr (createCharacter (Some p) 45 s)"
  by (cases nextToken)
     (auto simp: parseCharacterClassHyphen_def rangeEligible_def at_last_def
        isCharacterClassOpen_iff)

lemma hyphen_range:
  "hasElements (heap s p) \<Longrightarrow> rangeEligible s p nextToken \<Longrightarrow>
   parseCharacterClassHyphen w s p nextToken =
     (case w s p of
        Inl e \<Rightarrow> Inl e
      | Inr (nextNode, s1) \<Rightarrow>
          if ntype (heap s1 (last (elements (heap s p)))) = Character \<and>
             ntype (heap s1 nextNode) = Character
          then
            (let s2 = upd p (\<lambda>n. n\<lparr>elements := butlast (elements n)\<rparr>) s1
             in case createCharacterClassRange (Some p) (last (elements (heap s p))) nextNode s2 of
                  Inl e \<Rightarrow> Inl e
                | Inr (node, s3) \<Rightarrow>
                    Inr (node,
                      upd nextNode (\<lambda>n. n\<lparr>parent := Some node\<rparr>)
                        (upd (last (elements (heap s p))) (\<lambda>n. n\<lparr>parent := Some node\<rparr>) s3)))
          else Inl InvalidRange)"
  by (cases nextToken)
     (auto simp: parseCharacterClassHyphen_def rangeEligible_def at_last_def
        isCharacterClassOpen_iff)


section \<open>The claims\<close>

text \<open>
  C10. Parsing no tokens succeeds: the result is the \<open>RegExp\<close> root, whose pattern has
  one \<open>Alternative\<close> with no elements, and whose \<open>Flags\<close> node has the three flags of
  the input as they were given.
\<close>

theorem parse_empty:
  "\<exists>s. parse E [] fl optimize = Inr (0, s) \<and>
     ntype (heap s 0) = RegExp \<and> parent (heap s 0) = None \<and>
     pattern (heap s 0) = Some 1 \<and> ntype (heap s 1) = Pattern \<and>
     alternatives (heap s 1) = [2] \<and> ntype (heap s 2) = Alternative \<and>
     elements (heap s 2) = [] \<and>
     flags (heap s 0) = Some 3 \<and> ntype (heap s 3) = Flags \<and>
     ignoreCase (heap s 3) = in_ignoreCase fl \<and> dotAll (heap s 3) = in_dotAll fl \<and>
     extended (heap s 3) = in_extended fl"
  by (simp add: run_defs)

theorem parse_empty_witness:
  "\<not> isl (parse ascii_env [] \<lparr>in_ignoreCase = True, in_dotAll = False, in_extended = True\<rparr> False) \<and>
   ignoreCase (heap_of (parse ascii_env []
      \<lparr>in_ignoreCase = True, in_dotAll = False, in_extended = True\<rparr> False) 3)"
  using parse_empty [of ascii_env "\<lparr>in_ignoreCase = True, in_dotAll = False, in_extended = True\<rparr>" False]
  by (auto simp: heap_of_def)

text \<open>
  C3, as the code has it. For the tokens of \<^verbatim>\<open>(?:(a))\<close> with \<open>optimize\<close> the outer group
  stays: \<open>getOptimizedGroup\<close> lifts an inner node of type \<open>Group\<close> only, and the inner
  node here is a \<open>CapturingGroup\<close>. The top-level alternative holds the \<open>Group\<close>, whose
  one alternative holds the \<open>CapturingGroup\<close> number 1. For \<^verbatim>\<open>(?:(?:a))\<close> the inner
  \<open>Group\<close> is lifted: the top-level alternative, the parent of the outer group, holds it
  and is its parent.
\<close>

theorem nested_capture_kept:
  "(\<exists>s. parse E tokens_group_capture fl True = Inr (0, s) \<and>
      elements (heap s 2) = [4] \<and> ntype (heap s 4) = Group \<and> parent (heap s 4) = Some 2 \<and>
      alternatives (heap s 4) = [5] \<and> elements (heap s 5) = [6] \<and>
      ntype (heap s 6) = CapturingGroup \<and> number (heap s 6) = 1 \<and>
      parent (heap s 6) = Some 5) \<and>
   (\<exists>s. parse E tokens_group_group fl True = Inr (0, s) \<and>
      elements (heap s 2) = [6] \<and> ntype (heap s 6) = Group \<and> parent (heap s 6) = Some 2 \<and>
      parent (heap s 4) = Some 2)"
  using run_group_capture [of E fl] run_group_group [of E fl] by blast

theorem nested_capture_kept_witness:
  "ntype (heap_of (parse ascii_env tokens_group_capture no_flags True) 6) = CapturingGroup \<and>
   ntype (heap_of (parse ascii_env tokens_group_group no_flags True) 6) = Group"
  using nested_capture_kept [of ascii_env no_flags] by (auto simp: heap_of_def)

text \<open>
  C3 as stated fails: after parsing the tokens of \<^verbatim>\<open>(?:(a))\<close> with \<open>optimize\<close>, the
  top-level alternative (node 2, the parent of the outer group) holds node 4, a \<open>Group\<close>,
  and the \<open>CapturingGroup\<close> (node 6) has the alternative of that group for its parent.
\<close>

theorem nested_capture_counterexample:
  "\<not> isl (parse ascii_env tokens_group_capture no_flags True) \<and>
   elements (heap_of (parse ascii_env tokens_group_capture no_flags True) 2) = [4] \<and>
   ntype (heap_of (parse ascii_env tokens_group_capture no_flags True) 4) = Group \<and>
   parent (heap_of (parse ascii_env tokens_group_capture no_flags True) 4) = Some 2 \<and>
   ntype (heap_of (parse ascii_env tokens_group_capture no_flags True) 6) = CapturingGroup \<and>
   parent (heap_of (parse ascii_env tokens_group_capture no_flags True) 6) = Some 5"
  using run_group_capture [of ascii_env no_flags] by (auto simp: heap_of_def)

text \<open>
  C4. A subroutine token whose inner text matches \<^verbatim>\<open>^([-+]?)0*([1-9]\d*)$\<close> gives a
  \<open>Subroutine\<close> node whose \<open>ref\<close> is a number: the numeral for no sign, the number of
  capturing groups so far plus the numeral for \<open>+\<close>, that number plus one minus the
  numeral for \<open>-\<close>; the flag for a numbered reference is set and the node is recorded.
  The numeral and the number of groups together stay below \<open>2^53\<close>, where the numbers
  of the source, IEEE doubles, are the integers they stand for.
  And parsing the tokens of \<^verbatim>\<open>(a)\g<-1>\<close> succeeds, checks included, with a
  \<open>Subroutine\<close> of \<open>ref\<close> 1.
\<close>

theorem subroutine_numbered:
  assumes "matchesNumbered ''-+'' (slice raw 3 (Some (- 1))) sign num"
    and "to_number num + length (capturingGroups s) < 2 ^ 53"
  shows
    "(\<exists>s'. parseSubroutine s p raw = (next_addr s, s') \<and>
       ntype (heap s' (next_addr s)) = Subroutine \<and>
       ref (heap s' (next_addr s)) =
         Some (RefNum
           (if sign = [] then int (to_number num)
            else if sign = ''+'' then int (length (capturingGroups s)) + int (to_number num)
            else int (length (capturingGroups s)) + 1 - int (to_number num))) \<and>
       hasNumberedGroupRef s' \<and>
       subroutines s' = subroutines s @ [next_addr s]) \<and>
     (\<exists>s'. parse E tokens_capture_subroutine fl optimize = Inr (0, s') \<and>
        elements (heap s' 2) = [4, 7] \<and> ntype (heap s' 4) = CapturingGroup \<and>
        ntype (heap s' 7) = Subroutine \<and> ref (heap s' 7) = Some (RefNum 1))"
proof -
  have "numberedRef ''-+'' (slice raw 3 (Some (- 1))) = Some (sign, num)"
    using assms(1) by (rule numberedRef_match) (simp add: is_digit_def)
  then have "\<exists>s'. parseSubroutine s p raw = (next_addr s, s') \<and>
       ntype (heap s' (next_addr s)) = Subroutine \<and>
       ref (heap s' (next_addr s)) =
         Some (RefNum
           (if sign = [] then int (to_number num)
            else if sign = ''+'' then int (length (capturingGroups s)) + int (to_number num)
            else int (length (capturingGroups s)) + 1 - int (to_number num))) \<and>
       hasNumberedGroupRef s' \<and>
       subroutines s' = subroutines s @ [next_addr s]"
    by (simp add: parseSubroutine_def createSubroutine_def new_node_def getNodeBase_def)
  with run_capture_subroutine [of E fl optimize] show ?thesis by blast
qed



theorem subroutine_numbered_witness:
  "matchesNumbered ''-+'' (slice (backslash # ''g<+02>'') 3 (Some (- 1))) ''+'' ''2'' \<and>
   to_number ''2'' + length (capturingGroups (state_a\<lparr>capturingGroups := [7, 9]\<rparr>)) < 2 ^ 53 \<and>
   ref (heap (snd (parseSubroutine (state_a\<lparr>capturingGroups := [7, 9]\<rparr>) 2
          (backslash # ''g<+02>''))) 5) = Some (RefNum 4)"
proof -
  have b: "to_number ''2'' + length (capturingGroups (state_a\<lparr>capturingGroups := [7, 9]\<rparr>)) < 2 ^ 53"
    by (simp add: to_number_def)
  have "numberedRef ''-+'' (slice (backslash # ''g<+02>'') 3 (Some (- 1))) = Some (''+'', ''2'')"
    by (simp add: numberedRef_def slice_def is_digit_def)
  then have m: "matchesNumbered ''-+'' (slice (backslash # ''g<+02>'') 3 (Some (- 1))) ''+'' ''2''"
    by (rule numberedRef_Some)
  from subroutine_numbered [OF m b, of 2 ascii_env no_flags False]
  have "ref (heap (snd (parseSubroutine (state_a\<lparr>capturingGroups := [7, 9]\<rparr>) 2
          (backslash # ''g<+02>''))) (next_addr state_a)) = Some (RefNum (2 + int (to_number ''2'')))"
    by auto
  with m b show ?thesis by (simp add: state_a_facts to_number_def)
qed

text \<open>
  C6. After the loop: the check fails with \<open>NumericRefWithNamedCapture\<close> exactly when a
  numbered reference was seen and the map of named groups is not empty. Otherwise it
  succeeds exactly when every recorded subroutine resolves, and the first subroutine that
  does not resolve decides the error: \<open>SubroutineGroupUndefined\<close> for a number outside
  1 to the number of capturing groups, \<open>SubroutineNameUndefined\<close> for a name that is not
  in the map, \<open>SubroutineNameAmbiguous\<close> for a name registered for more than one group.
  \<open>parse\<close> returns what the loop returned when the check succeeds, and the error of the
  check when it fails.
\<close>

theorem postPass_outcome:
  "(postPass s = Some NumericRefWithNamedCapture \<longleftrightarrow>
      hasNumberedGroupRef s \<and> namedGroups s \<noteq> []) \<and>
   (\<not> (hasNumberedGroupRef s \<and> namedGroups s \<noteq> []) \<longrightarrow>
      (postPass s = None \<longleftrightarrow> (\<forall>sub\<in>set (subroutines s). resolves s sub)) \<and>
      (\<forall>i<length (subroutines s).
         (\<forall>j<i. resolves s (subroutines s ! j)) \<longrightarrow>
         (case ref (heap s (subroutines s ! i)) of
            Some (RefNum r) \<Rightarrow>
              r < 1 \<or> int (length (capturingGroups s)) < r \<longrightarrow>
              postPass s = Some SubroutineGroupUndefined
          | Some (RefName nm) \<Rightarrow>
              (map_of (namedGroups s) nm = None \<longrightarrow> postPass s = Some SubroutineNameUndefined) \<and>
              (\<forall>groups. map_of (namedGroups s) nm = Some groups \<and> 1 < length groups \<longrightarrow>
                 postPass s = Some SubroutineNameAmbiguous)
          | None \<Rightarrow> True))) \<and>
   (walkTokens E tokens fl optimize = Inr (ast, s) \<longrightarrow>
      parse E tokens fl optimize = (case postPass s of Some e \<Rightarrow> Inl e | None \<Rightarrow> Inr (ast, s)))"
proof -
  have never: "checkSubroutines s subs \<noteq> Some NumericRefWithNamedCapture" for subs
    by (induction subs) (auto simp: checkSubroutine_def split: option.splits reference.splits if_splits)
  have first: "postPass s = checkSubroutine s (subroutines s ! i)"
    if "\<not> (hasNumberedGroupRef s \<and> namedGroups s \<noteq> [])" "i < length (subroutines s)"
       "\<forall>j<i. resolves s (subroutines s ! j)" "\<not> resolves s (subroutines s ! i)" for i
    using that checkSubroutines_first [of i "subroutines s" s] by (auto simp: postPass_def)
  show ?thesis
  proof (intro conjI impI allI)
    show "postPass s = Some NumericRefWithNamedCapture \<longleftrightarrow>
            hasNumberedGroupRef s \<and> namedGroups s \<noteq> []"
      using never by (auto simp: postPass_def)
  next
    assume "\<not> (hasNumberedGroupRef s \<and> namedGroups s \<noteq> [])"
    then show "postPass s = None \<longleftrightarrow> (\<forall>sub\<in>set (subroutines s). resolves s sub)"
      by (auto simp: postPass_def checkSubroutines_None)
  next
    fix i
    assume a: "\<not> (hasNumberedGroupRef s \<and> namedGroups s \<noteq> [])" "i < length (subroutines s)"
      "\<forall>j<i. resolves s (subroutines s ! j)"
    show "case ref (heap s (subroutines s ! i)) of
            Some (RefNum r) \<Rightarrow>
              r < 1 \<or> int (length (capturingGroups s)) < r \<longrightarrow>
              postPass s = Some SubroutineGroupUndefined
          | Some (RefName nm) \<Rightarrow>
              (map_of (namedGroups s) nm = None \<longrightarrow> postPass s = Some SubroutineNameUndefined) \<and>
              (\<forall>groups. map_of (namedGroups s) nm = Some groups \<and> 1 < length groups \<longrightarrow>
                 postPass s = Some SubroutineNameAmbiguous)
          | None \<Rightarrow> True"
    proof (cases "resolves s (subroutines s ! i)")
      case True
      then show ?thesis
        by (auto simp: resolves_def split: option.splits reference.splits)
    next
      case False
      from first [OF a False] show ?thesis
        by (auto simp: checkSubroutine_def split: option.splits reference.splits)
    qed
  next
    assume "walkTokens E tokens fl optimize = Inr (ast, s)"
    then show "parse E tokens fl optimize =
        (case postPass s of Some e \<Rightarrow> Inl e | None \<Rightarrow> Inr (ast, s))"
      by (simp add: parse_def)
  qed
qed


theorem postPass_outcome_witness:
  "postPass (state_a\<lparr>hasNumberedGroupRef := True, namedGroups := [(''a'', [4])]\<rparr>) =
     Some NumericRefWithNamedCapture \<and>
   postPass state_a = None \<and>
   parse ascii_env [Tok_Character 97] no_flags False = Inr (0, state_a)"
proof -
  have w: "walkTokens ascii_env [Tok_Character 97] no_flags False = Inr (0, state_a)"
    by (simp add: state_a_def state_of_def run_defs)
  have n: "postPass state_a = None"
    using postPass_outcome [of state_a ascii_env "[Tok_Character 97]" no_flags False 0]
    by (simp add: state_a_facts)
  have "postPass (state_a\<lparr>hasNumberedGroupRef := True, namedGroups := [(''a'', [4])]\<rparr>) =
     Some NumericRefWithNamedCapture"
    using postPass_outcome
      [of "state_a\<lparr>hasNumberedGroupRef := True, namedGroups := [(''a'', [4])]\<rparr>"
          ascii_env "[]" no_flags False 0]
    by simp
  moreover have "parse ascii_env [Tok_Character 97] no_flags False = Inr (0, state_a)"
    using postPass_outcome [of state_a ascii_env "[Tok_Character 97]" no_flags False 0] w n
    by simp
  ultimately show ?thesis using n by simp
qed

text \<open>
  C7. A backreference token \<^verbatim>\<open>\k<...>\<close> or \<^verbatim>\<open>\k'...'\<close>: when the inner text matches
  \<^verbatim>\<open>^(-?)0*([1-9]\d*)$\<close>, the result is \<open>InsufficientGroups\<close> exactly when the numeral
  is greater than the number of capturing groups so far (the numeral as written, before
  a relative one is resolved), and otherwise a \<open>Backreference\<close> whose \<open>ref\<close> is that
  number plus one minus the numeral for the sign \<open>-\<close> and the numeral otherwise. When the
  inner text does not match and contains \<open>-\<close> or \<open>+\<close> the result is
  \<open>InvalidBackrefName\<close>; when it does not match, contains neither and is not a name of
  the map, the result is \<open>UndefinedGroupName\<close>.
\<close>

theorem backreference_outcome:
  assumes "raw = backslash # CHR ''k'' # opn # inner @ [cls]"
    and "opn = CHR ''<'' \<or> opn = quote"
  shows
    "(matchesNumbered ''-'' inner sign num \<and> length (capturingGroups s) < to_number num \<longrightarrow>
        parseBackreference s p raw = Inl InsufficientGroups) \<and>
     (matchesNumbered ''-'' inner sign num \<and> to_number num \<le> length (capturingGroups s) \<longrightarrow>
        (\<exists>s'. parseBackreference s p raw = Inr (next_addr s, s') \<and>
           ntype (heap s' (next_addr s)) = Backreference \<and>
           ref (heap s' (next_addr s)) =
             Some (RefNum
               (if sign = ''-'' then int (length (capturingGroups s)) + 1 - int (to_number num)
                else int (to_number num))) \<and>
           hasNumberedGroupRef s')) \<and>
     ((\<forall>sg n. \<not> matchesNumbered ''-'' inner sg n) \<and>
      (CHR ''-'' \<in> set inner \<or> CHR ''+'' \<in> set inner) \<longrightarrow>
        parseBackreference s p raw = Inl InvalidBackrefName) \<and>
     ((\<forall>sg n. \<not> matchesNumbered ''-'' inner sg n) \<and>
      CHR ''-'' \<notin> set inner \<and> CHR ''+'' \<notin> set inner \<and>
      map_of (namedGroups s) inner = None \<longrightarrow>
        parseBackreference s p raw = Inl UndefinedGroupName)"
proof -
  have k: "hasKWrapper raw" using assms by (auto simp: hasKWrapper_def)
  have sl: "slice raw 3 (Some (- 1)) = inner" using assms(1) by (simp add: slice_inner)
  have nd: "\<forall>c\<in>set ''-''. \<not> is_digit c" by (simp add: is_digit_def)
  have num: "numberedRef ''-'' inner = Some (sign, num)" if "matchesNumbered ''-'' inner sign num"
    using that nd by (rule numberedRef_match)
  have sg: "sign = ''-'' \<longleftrightarrow> sign \<noteq> []" if "matchesNumbered ''-'' inner sign num"
    using that by (auto simp: matchesNumbered_def)
  have none: "numberedRef ''-'' inner = None" if "\<forall>sg n. \<not> matchesNumbered ''-'' inner sg n"
    using that numberedRef_None [OF nd] by simp
  show ?thesis
    using k sl
    by (auto simp: parseBackreference_def fromNum_def createBackreference_def new_node_def
          getNodeBase_def hasSign_def num sg none)
qed


theorem backreference_outcome_witness:
  "parseBackreference (state_a\<lparr>capturingGroups := [7, 9]\<rparr>) 2 (backslash # ''k<-3>'') =
     Inl InsufficientGroups \<and>
   ref (heap_of (parseBackreference (state_a\<lparr>capturingGroups := [7, 9]\<rparr>) 2
      (backslash # ''k<-1>'')) 5) = Some (RefNum 2) \<and>
   parseBackreference state_a 2 (backslash # ''k<a-b>'') = Inl InvalidBackrefName \<and>
   parseBackreference state_a 2 (backslash # ''k<ab>'') = Inl UndefinedGroupName"
proof -
  let ?s = "state_a\<lparr>capturingGroups := [7, 9]\<rparr>"
  have nd: "\<forall>c\<in>set ''-''. \<not> is_digit c" by (simp add: is_digit_def)
  have "numberedRef ''-'' ''-3'' = Some (''-'', ''3'')" "numberedRef ''-'' ''-1'' = Some (''-'', ''1'')"
    by (simp_all add: numberedRef_def is_digit_def)
  then have m: "matchesNumbered ''-'' ''-3'' ''-'' ''3''" "matchesNumbered ''-'' ''-1'' ''-'' ''1''"
    by (auto intro: numberedRef_Some)
  have "numberedRef ''-'' ''a-b'' = None" "numberedRef ''-'' ''ab'' = None"
    by (simp_all add: numberedRef_def is_digit_def)
  then have n: "\<forall>sg n. \<not> matchesNumbered ''-'' ''a-b'' sg n" "\<forall>sg n. \<not> matchesNumbered ''-'' ''ab'' sg n"
    using numberedRef_None [OF nd] by auto
  have 1: "parseBackreference ?s 2 (backslash # ''k<-3>'') = Inl InsufficientGroups"
    using backreference_outcome [of "backslash # ''k<-3>''" "CHR ''<''" "''-3''" "CHR ''>''" "''-''" "''3''" ?s 2] m
    by (simp add: to_number_def)
  have 2: "ref (heap_of (parseBackreference ?s 2 (backslash # ''k<-1>''))
             (next_addr ?s)) = Some (RefNum 2)"
    using backreference_outcome [of "backslash # ''k<-1>''" "CHR ''<''" "''-1''" "CHR ''>''" "''-''" "''1''" ?s 2] m
    by (auto simp: to_number_def heap_of_def)
  have 3: "parseBackreference state_a 2 (backslash # ''k<a-b>'') = Inl InvalidBackrefName"
    using backreference_outcome [of "backslash # ''k<a-b>''" "CHR ''<''" "''a-b''" "CHR ''>''" "''-''" "''3''" state_a 2] n
    by simp
  have 4: "parseBackreference state_a 2 (backslash # ''k<ab>'') = Inl UndefinedGroupName"
    using backreference_outcome [of "backslash # ''k<ab>''" "CHR ''<''" "''ab''" "CHR ''>''" "''-''" "''3''" state_a 2] n
    by (simp add: state_a_facts)
  from 1 2 3 4 show ?thesis by (simp add: state_a_facts)
qed

text \<open>
  C8. The quantifier parser, for a parent that is an \<open>Alternative\<close>, on a store where the
  parent links of the alternative end:
  the result is \<open>NothingToRepeat\<close> exactly when the alternative has no elements;
  otherwise \<open>RangeOutOfOrder\<close> exactly when the maximum is less than the minimum;
  otherwise \<open>VariableLookbehind\<close> exactly when minimum and maximum differ and an
  ancestor of the new quantifier node (the alternative or one of its ancestors) is an
  assertion of kind \<open>lookbehind\<close>; otherwise a new \<open>Quantifier\<close> node that has the last
  element of the alternative for its \<open>element\<close>, that element has the new node for its
  parent, and the alternative has lost its last element.
\<close>

theorem quantifier_outcome:
  assumes "ntype (heap s p) = Alternative" and "spine (heap s) p" and "p < next_addr s"
  shows
    "parseQuantifier s p mn mx grdy poss =
       (if elements (heap s p) = [] then Inl NothingToRepeat
        else if mx < enat mn then Inl RangeOutOfOrder
        else if enat mn \<noteq> mx \<and>
                (\<exists>b. (b = p \<or> ancestor (heap s) p b) \<and> isLookbehind (heap s b))
        then Inl VariableLookbehind
        else Inr (next_addr s,
               upd p (\<lambda>n. n\<lparr>elements := butlast (elements n)\<rparr>)
                 (upd (last (elements (heap s p))) (\<lambda>n. n\<lparr>parent := Some (next_addr s)\<rparr>)
                    (snd (new_node ((getNodeBase (Some p) Quantifier)
                       \<lparr>qmin := mn, qmax := mx, greedy := grdy, possessive := poss,
                        element := Some (last (elements (heap s p)))\<rparr>) s)))))"
  unfolding parseQuantifier_def createQuantifier_def new_node_def
  using assms(1,3)
  by (auto simp: isWithin_new [OF assms(2,3)] at_last_def getNodeBase_def upd_def
        hasElements_def
        simp del: isWithin.simps)



theorem quantifier_outcome_witness:
  "ntype (heap state_a 2) = Alternative \<and> spine (heap state_a) 2 \<and> 2 < next_addr state_a \<and>
   parseQuantifier state_a 2 3 (enat 2) True False = Inl RangeOutOfOrder \<and>
   ntype (heap state_empty 2) = Alternative \<and> elements (heap state_empty 2) = [] \<and>
   parseQuantifier state_empty 2 1 (enat 1) True False = Inl NothingToRepeat \<and>
   \<not> isl (parseQuantifier state_a 2 2 (enat 2) True False) \<and>
   element (heap_of (parseQuantifier state_a 2 2 (enat 2) True False) 5) = Some 4 \<and>
   parent (heap_of (parseQuantifier state_a 2 2 (enat 2) True False) 4) = Some 5 \<and>
   elements (heap_of (parseQuantifier state_a 2 2 (enat 2) True False) 2) = [] \<and>
   parseQuantifier state_lookbehind_a 5 2 (enat 3) True False = Inl VariableLookbehind"
proof -
  have sp0: "spine (heap state_a) 0" by (rule spine.root) (simp add: state_a_facts)
  have sp1: "spine (heap state_a) (Suc 0)" by (rule spine.up [OF _ _ sp0]) (simp_all add: state_a_facts)
  have sp2: "spine (heap state_a) 2" by (rule spine.up [OF _ _ sp1]) (simp_all add: state_a_facts)
  have t2: "ntype (heap state_a 2) = Alternative" by (simp add: state_a_facts)
  have lt: "2 < next_addr state_a" by (simp add: state_a_facts)
  have e0: "spine (heap state_empty) 0" by (rule spine.root) (simp add: state_empty_facts)
  have e1: "spine (heap state_empty) (Suc 0)"
    by (rule spine.up [OF _ _ e0]) (simp_all add: state_empty_facts)
  have e2: "spine (heap state_empty) 2"
    by (rule spine.up [OF _ _ e1]) (simp_all add: state_empty_facts)
  have et: "ntype (heap state_empty 2) = Alternative" "elements (heap state_empty 2) = []"
    "2 < next_addr state_empty"
    by (simp_all add: state_empty_facts)
  have lt5: "ntype (heap state_lookbehind_a 5) = Alternative"
    "5 < next_addr state_lookbehind_a"
    by (simp_all add: state_lookbehind_a_facts)
  have l0: "spine (heap state_lookbehind_a) 0"
    by (rule spine.root) (simp add: state_lookbehind_a_facts)
  have l1: "spine (heap state_lookbehind_a) (Suc 0)"
    by (rule spine.up [OF _ _ l0]) (simp_all add: state_lookbehind_a_facts)
  have l2: "spine (heap state_lookbehind_a) 2"
    by (rule spine.up [OF _ _ l1]) (simp_all add: state_lookbehind_a_facts)
  have l4: "spine (heap state_lookbehind_a) 4"
    by (rule spine.up [OF _ _ l2]) (simp_all add: state_lookbehind_a_facts)
  have l5: "spine (heap state_lookbehind_a) 5"
    by (rule spine.up [OF _ _ l4]) (simp_all add: state_lookbehind_a_facts)
  have anc: "ancestor (heap state_lookbehind_a) 5 4"
    by (rule ancestor.parent) (simp add: state_lookbehind_a_facts)
  have lb: "\<exists>b. (b = 5 \<or> ancestor (heap state_lookbehind_a) 5 b) \<and>
              isLookbehind (heap state_lookbehind_a b)"
    using anc by (auto simp: isLookbehind_def state_lookbehind_a_facts)
  have 1: "parseQuantifier state_a 2 3 (enat 2) True False = Inl RangeOutOfOrder"
    using quantifier_outcome [OF t2 sp2 lt, of 3 "enat 2" True False] by (simp add: state_a_facts)
  have 2: "parseQuantifier state_empty 2 1 (enat 1) True False = Inl NothingToRepeat"
    using quantifier_outcome [OF et(1) e2 et(3), of 1 "enat 1" True False] by (simp add: et(2))
  have 3: "parseQuantifier state_a 2 2 (enat 2) True False =
      Inr (5, upd 2 (\<lambda>n. n\<lparr>elements := butlast (elements n)\<rparr>)
                 (upd 4 (\<lambda>n. n\<lparr>parent := Some 5\<rparr>)
                    (snd (new_node ((getNodeBase (Some 2) Quantifier)
                       \<lparr>qmin := 2, qmax := enat 2, greedy := True, possessive := False,
                        element := Some 4\<rparr>) state_a))))"
    using quantifier_outcome [OF t2 sp2 lt, of 2 "enat 2" True False] by (simp add: state_a_facts)
  have 4: "parseQuantifier state_lookbehind_a 5 2 (enat 3) True False = Inl VariableLookbehind"
    using quantifier_outcome [OF lt5(1) l5 lt5(2), of 2 "enat 3" True False] lb
    by (simp add: state_lookbehind_a_facts)
  show ?thesis
    using t2 sp2 lt et(1,2) 1 2 4
    by (simp add: 3 heap_of_def upd_def new_node_def getNodeBase_def state_a_facts)
qed

text \<open>
  C9, as the code has it. For a parent that is a \<open>CharacterClass\<close>: on a
  \<open>CharacterClassHyphen\<close> token the parser tries a range exactly when the class has a
  last element that is not a \<open>CharacterClass\<close> and the next token exists and is none of
  \<open>CharacterClassOpen\<close>, \<open>CharacterClassClose\<close>, \<open>CharacterClassIntersector\<close>.
  It then walks the next token; unless both sides are \<open>Character\<close> nodes the result is
  \<open>InvalidRange\<close>; when they are and the value of the right side is less than the value
  of the left side, the result is the error \<open>ClassRangeOutOfOrder\<close> of
  \<open>createCharacterClassRange\<close>; when they are and in order, the result is a new
  \<open>CharacterClassRange\<close> with the two for \<open>min\<close> and \<open>max\<close>, and both have it for
  their parent. When no range is tried, the result is a \<open>Character\<close> of value 45 under
  the class.
\<close>

theorem hyphen_outcome:
  assumes "ntype (heap s p) = CharacterClass"
  shows
  "(\<not> rangeEligible s p nextToken \<longrightarrow>
      (\<exists>s'. parseCharacterClassHyphen w s p nextToken = Inr (next_addr s, s') \<and>
         ntype (heap s' (next_addr s)) = Character \<and>
         cvalue (heap s' (next_addr s)) = 45 \<and>
         parent (heap s' (next_addr s)) = Some p)) \<and>
   (rangeEligible s p nextToken \<longrightarrow>
      (case w s p of
         Inl e \<Rightarrow> parseCharacterClassHyphen w s p nextToken = Inl e
       | Inr (nextNode, s1) \<Rightarrow>
           (let prevNode = last (elements (heap s p)) in
            if ntype (heap s1 prevNode) = Character \<and> ntype (heap s1 nextNode) = Character
            then
              if cvalue (heap s1 nextNode) < cvalue (heap s1 prevNode)
              then parseCharacterClassHyphen w s p nextToken = Inl ClassRangeOutOfOrder
              else
                (\<exists>s'. parseCharacterClassHyphen w s p nextToken = Inr (next_addr s1, s') \<and>
                   ntype (heap s' (next_addr s1)) = CharacterClassRange \<and>
                   rmin (heap s' (next_addr s1)) = Some prevNode \<and>
                   rmax (heap s' (next_addr s1)) = Some nextNode \<and>
                   parent (heap s' prevNode) = Some (next_addr s1) \<and>
                   parent (heap s' nextNode) = Some (next_addr s1))
            else parseCharacterClassHyphen w s p nextToken = Inl InvalidRange)))"
proof (intro conjI impI)
  have he: "hasElements (heap s p)" using assms by (simp add: hasElements_def)
  {
    assume "\<not> rangeEligible s p nextToken"
    then show "\<exists>s'. parseCharacterClassHyphen w s p nextToken = Inr (next_addr s, s') \<and>
         ntype (heap s' (next_addr s)) = Character \<and>
         cvalue (heap s' (next_addr s)) = 45 \<and>
         parent (heap s' (next_addr s)) = Some p"
      by (simp add: hyphen_literal [OF he] createCharacter_def new_node_def getNodeBase_def)
  }
  {
    assume e: "rangeEligible s p nextToken"
    show "case w s p of
         Inl e \<Rightarrow> parseCharacterClassHyphen w s p nextToken = Inl e
       | Inr (nextNode, s1) \<Rightarrow>
           (let prevNode = last (elements (heap s p)) in
            if ntype (heap s1 prevNode) = Character \<and> ntype (heap s1 nextNode) = Character
            then
              if cvalue (heap s1 nextNode) < cvalue (heap s1 prevNode)
              then parseCharacterClassHyphen w s p nextToken = Inl ClassRangeOutOfOrder
              else
                (\<exists>s'. parseCharacterClassHyphen w s p nextToken = Inr (next_addr s1, s') \<and>
                   ntype (heap s' (next_addr s1)) = CharacterClassRange \<and>
                   rmin (heap s' (next_addr s1)) = Some prevNode \<and>
                   rmax (heap s' (next_addr s1)) = Some nextNode \<and>
                   parent (heap s' prevNode) = Some (next_addr s1) \<and>
                   parent (heap s' nextNode) = Some (next_addr s1))
            else parseCharacterClassHyphen w s p nextToken = Inl InvalidRange)"
    proof (cases "w s p")
      case (Inl err)
      then show ?thesis by (simp add: hyphen_range [OF he e])
    next
      case (Inr r)
      obtain nextNode s1 where r: "r = (nextNode, s1)" by (cases r)
      show ?thesis
        unfolding Inr r
        by (simp add: hyphen_range [OF he e] Inr r createCharacterClassRange_def new_node_def
              getNodeBase_def upd_def Let_def)
    qed
  }
qed

theorem hyphen_outcome_witness:
  "ntype (heap state_class_z 6) = CharacterClass \<and>
   rangeEligible state_class_z 6 (Some (Tok_Character 123)) \<and>
   \<not> rangeEligible state_class_z 6 (Some Tok_CharacterClassClose) \<and>
   \<not> isl (parseCharacterClassHyphen (\<lambda>s p. Inr (createCharacter (Some p) 123 s)) state_class_z 6
        (Some (Tok_Character 123))) \<and>
   ntype (heap_of (parseCharacterClassHyphen (\<lambda>s p. Inr (createCharacter (Some p) 123 s)) state_class_z 6
        (Some (Tok_Character 123))) 9) = CharacterClassRange \<and>
   parent (heap_of (parseCharacterClassHyphen (\<lambda>s p. Inr (createCharacter (Some p) 123 s)) state_class_z 6
        (Some (Tok_Character 123))) 7) = Some 9 \<and>
   parent (heap_of (parseCharacterClassHyphen (\<lambda>s p. Inr (createCharacter (Some p) 123 s)) state_class_z 6
        (Some (Tok_Character 123))) 8) = Some 9 \<and>
   cvalue (heap_of (parseCharacterClassHyphen (\<lambda>s p. Inr (createCharacter (Some p) 123 s)) state_class_z 6
        (Some Tok_CharacterClassClose)) 8) = 45 \<and>
   parseCharacterClassHyphen (\<lambda>s p. Inr (createCharacter (Some p) 97 s)) state_class_z 6
        (Some (Tok_Character 97)) = Inl ClassRangeOutOfOrder"
proof -
  let ?w = "\<lambda>s p. Inr (createCharacter (Some p) 123 s)"
  let ?v = "\<lambda>s p. Inr (createCharacter (Some p) 97 s)"
  have c: "ntype (heap state_class_z 6) = CharacterClass" by (simp add: state_class_z_facts)
  have e: "rangeEligible state_class_z 6 (Some (Tok_Character 123))"
    and e': "rangeEligible state_class_z 6 (Some (Tok_Character 97))"
    and n: "\<not> rangeEligible state_class_z 6 (Some Tok_CharacterClassClose)"
    by (simp_all add: rangeEligible_def state_class_z_facts)
  from hyphen_outcome [OF c, of "Some (Tok_Character 123)" ?w] e
  have "\<exists>s'. parseCharacterClassHyphen ?w state_class_z 6 (Some (Tok_Character 123)) = Inr (9, s') \<and>
          ntype (heap s' 9) = CharacterClassRange \<and> parent (heap s' 7) = Some 9 \<and>
          parent (heap s' 8) = Some 9"
    by (auto simp: createCharacter_def new_node_def getNodeBase_def state_class_z_facts)
  moreover
  from hyphen_outcome [OF c, of "Some Tok_CharacterClassClose" ?w] n
  have "\<exists>s'. parseCharacterClassHyphen ?w state_class_z 6 (Some Tok_CharacterClassClose) = Inr (8, s') \<and>
          cvalue (heap s' 8) = 45"
    by (auto simp: state_class_z_facts)
  moreover
  from hyphen_outcome [OF c, of "Some (Tok_Character 97)" ?v] e'
  have "parseCharacterClassHyphen ?v state_class_z 6 (Some (Tok_Character 97)) =
          Inl ClassRangeOutOfOrder"
    by (auto simp: createCharacter_def new_node_def getNodeBase_def state_class_z_facts)
  ultimately show ?thesis using c e n by (auto simp: heap_of_def)
qed

text \<open>
  C9 as stated fails on \<^verbatim>\<open>[z-a]\<close>. In the class, after \<open>z\<close>, the hyphen meets the
  condition for a range (the last element is the \<open>Character\<close> \<open>z\<close>, the next token is the
  \<open>Character\<close> \<open>a\<close>), and both sides are \<open>Character\<close> nodes; yet no range is emitted,
  nor a literal hyphen, and the error is not \<open>InvalidRange\<close>: the hyphen parser, and with
  it \<open>parse\<close> on the tokens of \<^verbatim>\<open>[z-a]\<close>, fails with \<open>ClassRangeOutOfOrder\<close>.
\<close>

theorem hyphen_counterexample:
  "rangeEligible state_class_z 6 (Some (Tok_Character 97)) \<and>
   ntype (heap state_class_z (last (elements (heap state_class_z 6)))) = Character \<and>
   isl (parseCharacterClassHyphen (\<lambda>s p. Inr (createCharacter (Some p) 97 s)) state_class_z 6
        (Some (Tok_Character 97))) \<and>
   parseCharacterClassHyphen (\<lambda>s p. Inr (createCharacter (Some p) 97 s)) state_class_z 6
        (Some (Tok_Character 97)) \<noteq> Inl InvalidRange \<and>
   parse ascii_env tokens_class_z_a no_flags False = Inl ClassRangeOutOfOrder"
proof -
  have h: "hasElements (heap state_class_z 6)"
    by (simp add: hasElements_def state_class_z_facts)
  have e: "rangeEligible state_class_z 6 (Some (Tok_Character 97))"
    by (simp add: rangeEligible_def state_class_z_facts)
  have "parseCharacterClassHyphen (\<lambda>s p. Inr (createCharacter (Some p) 97 s)) state_class_z 6
        (Some (Tok_Character 97)) = Inl ClassRangeOutOfOrder"
    by (simp add: hyphen_range [OF h e] createCharacter_def createCharacterClassRange_def
          new_node_def getNodeBase_def upd_def state_class_z_facts)
  with e run_class_z_a [of ascii_env no_flags False] show ?thesis
    by (simp add: state_class_z_facts)
qed

text \<open>
  C2, as the code has it. With one alternative, one element, and outer and inner node both
  of type \<open>Group\<close>, \<open>getOptimizedGroup\<close> returns the inner group exactly when the outer
  group is not atomic around inner flags, and has no flags around an inner group that is
  atomic or has flags: all three mixed mergers leave the nesting in place. When it returns
  the inner group, that group has the parent of the outer group, is atomic if either was,
  and has the flags of the outer group when the outer group has flags; nothing else
  changes.
\<close>

theorem optimized_group:
  assumes "ntype (heap s node) = Group" and "alternatives (heap s node) = [alt]"
    and "elements (heap s alt) = [el]" and "ntype (heap s el) = Group" and "el \<noteq> node"
  shows
    "(groupsMerge (heap s node) (heap s el) \<longrightarrow>
        (\<exists>s'. getOptimizedGroup node s = Inr (el, s') \<and>
           parent (heap s' el) = parent (heap s node) \<and>
           atomic (heap s' el) = (atomic (heap s el) \<or> atomic (heap s node)) \<and>
           gflags (heap s' el) =
             (if \<not> atomic (heap s node) \<and> gflags (heap s node) \<noteq> None then gflags (heap s node)
              else gflags (heap s el)) \<and>
           (\<forall>a. a \<noteq> el \<longrightarrow> heap s' a = heap s a))) \<and>
     (\<not> groupsMerge (heap s node) (heap s el) \<longrightarrow> getOptimizedGroup node s = Inr (node, s))"
  using assms
  by (auto simp: getOptimizedGroup_def groupsMerge_def at_index_def upd_def Let_def)


theorem optimized_group_witness:
  "ntype (heap_of (parse ascii_env tokens_group_group no_flags False) 4) = Group \<and>
   alternatives (heap_of (parse ascii_env tokens_group_group no_flags False) 4) = [5] \<and>
   elements (heap_of (parse ascii_env tokens_group_group no_flags False) 5) = [6] \<and>
   ntype (heap_of (parse ascii_env tokens_group_group no_flags False) 6) = Group \<and>
   groupsMerge (heap_of (parse ascii_env tokens_group_group no_flags False) 4)
     (heap_of (parse ascii_env tokens_group_group no_flags False) 6) \<and>
   \<not> isl (getOptimizedGroup 4 (state_of (parse ascii_env tokens_group_group no_flags False))) \<and>
   fst (projr (getOptimizedGroup 4 (state_of (parse ascii_env tokens_group_group no_flags False)))) = 6 \<and>
   parent (heap_of (getOptimizedGroup 4
      (state_of (parse ascii_env tokens_group_group no_flags False))) 6) = Some 2"
proof -
  have "\<exists>s. parse ascii_env tokens_group_group no_flags False = Inr (0, s) \<and>
     ntype (heap s 4) = Group \<and> alternatives (heap s 4) = [5] \<and> elements (heap s 5) = [6] \<and>
     ntype (heap s 6) = Group \<and> parent (heap s 4) = Some 2 \<and> \<not> atomic (heap s 4) \<and>
     gflags (heap s 4) = None"
    by (simp add: run_defs tokens_group_group_def ascii_env_def)
  then obtain s where s: "parse ascii_env tokens_group_group no_flags False = Inr (0, s)"
    and f: "ntype (heap s 4) = Group" "alternatives (heap s 4) = [5]" "elements (heap s 5) = [6]"
      "ntype (heap s 6) = Group"
    and g: "parent (heap s 4) = Some 2" "\<not> atomic (heap s 4)" "gflags (heap s 4) = None"
    by blast
  have m: "groupsMerge (heap s 4) (heap s 6)" using g by (simp add: groupsMerge_def)
  have "(6::nat) \<noteq> 4" by simp
  from optimized_group [OF f this] m g
  have "\<exists>s'. getOptimizedGroup 4 s = Inr (6, s') \<and> parent (heap s' 6) = Some 2"
    by auto
  with s f m show ?thesis by (auto simp: heap_of_def state_of_def)
qed

text \<open>
  C2 as stated fails on an atomic group around a group with flags, which the claim calls
  a legal merger: after parsing the tokens of \<^verbatim>\<open>(?>(?i:a))\<close> with \<open>optimize\<close>, the
  top-level alternative holds the atomic group (node 4), and the group with the flags
  (node 6) is still inside it and is not atomic.
\<close>

theorem optimized_group_counterexample:
  "\<not> isl (parse ascii_env tokens_atomic_flags no_flags True) \<and>
   elements (heap_of (parse ascii_env tokens_atomic_flags no_flags True) 2) = [4] \<and>
   atomic (heap_of (parse ascii_env tokens_atomic_flags no_flags True) 4) \<and>
   alternatives (heap_of (parse ascii_env tokens_atomic_flags no_flags True) 4) = [5] \<and>
   elements (heap_of (parse ascii_env tokens_atomic_flags no_flags True) 5) = [6] \<and>
   ntype (heap_of (parse ascii_env tokens_atomic_flags no_flags True) 6) = Group \<and>
   gflags (heap_of (parse ascii_env tokens_atomic_flags no_flags True) 6) =
     Some \<lparr>enable = [''i''], disable = []\<rparr> \<and>
   \<not> atomic (heap_of (parse ascii_env tokens_atomic_flags no_flags True) 6) \<and>
   parent (heap_of (parse ascii_env tokens_atomic_flags no_flags True) 6) = Some 5"
  using run_atomic_flags [of ascii_env no_flags] by (auto simp: heap_of_def)

section \<open>The links of the tree\<close>

subsection \<open>More runs on concrete tokens\<close>


lemma run_class_and:
  "\<exists>s. parse E tokens_class_and fl False = Inr (0, s) \<and>
     pattern (heap s 0) = Some (Suc 0) \<and> alternatives (heap s (Suc 0)) = [2] \<and>
     elements (heap s 2) = [4] \<and> ntype (heap s 4) = CharacterClass \<and>
     elements (heap s 4) = [5] \<and> ntype (heap s 5) = CharacterClassIntersection"
  by (simp add: run_defs tokens_class_and_def)

subsection \<open>The invariant of the store\<close>

lemma elements_kids: "set (elements n) \<subseteq> set (kids n)"
  by (auto simp: kids_def)

lemma wfD:
  assumes "wellFormed L h n"
  shows "a \<in> L \<Longrightarrow> a < n"
    and "a \<in> L \<Longrightarrow> c \<in> set (kids (h a)) \<Longrightarrow> c \<in> L"
    and "a \<in> L \<Longrightarrow> c \<in> set (kids (h a)) \<Longrightarrow> parentOK h a c"
    and "a \<in> L \<Longrightarrow> distinct (kids (h a))"
    and "a \<in> L \<Longrightarrow> b \<in> L \<Longrightarrow> c \<in> set (kids (h a)) \<Longrightarrow> c \<in> set (kids (h b)) \<Longrightarrow> a = b"
    and "a \<in> L \<Longrightarrow> ntype (h a) = CharacterClass \<Longrightarrow> classShape h a"
    and "a \<in> L \<Longrightarrow> a \<notin> set (kids (h a))"
  using assms unfolding wellFormed_def by blast+

lemma wf_mono: "wellFormed L h n \<Longrightarrow> n \<le> n' \<Longrightarrow> wellFormed L h n'"
  unfolding wellFormed_def by (meson less_le_trans)

text \<open>A property of a live node that reads the node, its kids and their kids only.\<close>

lemma local_agree:
  assumes "wellFormed L h n" and "a \<in> L" and "\<forall>b\<in>L. h' b = h b"
  shows "kids (h' a) = kids (h a)"
    and "c \<in> set (kids (h a)) \<Longrightarrow> parentOK h' a c = parentOK h a c"
    and "classShape h' a = classShape h a"
proof -
  show k: "kids (h' a) = kids (h a)" using assms by simp
  have inL: "c \<in> L" if "c \<in> set (kids (h a))" for c using wfD(2) [OF assms(1,2) that] .
  show "parentOK h' a c = parentOK h a c" if "c \<in> set (kids (h a))"
    using inL [OF that] assms by (simp add: parentOK_def)
  have el: "e \<in> L" if "e \<in> set (elements (h a))" for e
    using inL that elements_kids by blast
  show "classShape h' a = classShape h a"
    using assms(2,3) el by (auto simp: classShape_def noIntersection_def)
qed

lemma wf_agree:
  assumes "wellFormed L h n" and "\<forall>b\<in>L. h' b = h b"
  shows "wellFormed L h' n"
  unfolding wellFormed_def
proof (intro conjI ballI allI impI)
  fix a assume "a \<in> L" then show "a < n" using wfD(1) [OF assms(1)] by blast
next
  fix a assume a: "a \<in> L"
  show "set (kids (h' a)) \<subseteq> L"
    using local_agree(1) [OF assms(1) a assms(2)] wfD(2) [OF assms(1) a] by auto
next
  fix a c assume a: "a \<in> L" and "c \<in> set (kids (h' a))"
  then have c: "c \<in> set (kids (h a))" using local_agree(1) [OF assms(1) a assms(2)] by simp
  show "parentOK h' a c"
    using local_agree(2) [OF assms(1) a assms(2) c] wfD(3) [OF assms(1) a c] by simp
next
  fix a assume a: "a \<in> L"
  show "distinct (kids (h' a))"
    using local_agree(1) [OF assms(1) a assms(2)] wfD(4) [OF assms(1) a] by simp
next
  fix a b c assume "a \<in> L" "b \<in> L" "c \<in> set (kids (h' a))" "c \<in> set (kids (h' b))"
  then show "a = b"
    using wfD(5) [OF assms(1), of a b c] assms(2) by simp
next
  fix a assume a: "a \<in> L" and "ntype (h' a) = CharacterClass"
  then have "ntype (h a) = CharacterClass" using assms(2) by simp
  then show "classShape h' a"
    using local_agree(3) [OF assms(1) a assms(2)] wfD(6) [OF assms(1) a] by simp
next
  fix a assume a: "a \<in> L"
  show "a \<notin> set (kids (h' a))"
    using local_agree(1) [OF assms(1) a assms(2)] wfD(7) [OF assms(1) a] by simp
qed

lemma wf_outside: "wellFormed L h n \<Longrightarrow> a \<notin> L \<Longrightarrow> wellFormed L (h(a := x)) n"
  by (rule wf_agree) auto

lemma unheld_agree: "\<forall>b\<in>L. h' b = h b \<Longrightarrow> unheld L h' c = unheld L h c"
  by (simp add: unheld_def)

text \<open>An update that keeps the edges and the type of a node.\<close>

lemma wf_fields:
  assumes wf: "wellFormed L h n"
    and k: "kids x = kids (h a)" "elements x = elements (h a)" "classes x = classes (h a)"
      "ntype x = ntype (h a)"
    and p: "parent x = parent (h a) \<or> unheld L h a"
  shows "wellFormed L (h(a := x)) n"
  unfolding wellFormed_def
proof (intro conjI ballI allI impI)
  let ?h = "h(a := x)"
  have kd: "kids (?h b) = kids (h b)" for b using k(1) by simp
  have ty: "ntype (?h b) = ntype (h b)" for b using k(4) by simp
  have el: "elements (?h b) = elements (h b)" for b using k(2) by simp
  have cl: "classes (?h b) = classes (h b)" for b using k(3) by simp
  { fix b assume "b \<in> L" then show "b < n" using wfD(1) [OF wf] by blast }
  { fix b assume "b \<in> L" then show "set (kids (?h b)) \<subseteq> L"
      unfolding kd using wfD(2) [OF wf] by blast }
  { fix b c assume b: "b \<in> L" and "c \<in> set (kids (?h b))"
    then have c: "c \<in> set (kids (h b))" unfolding kd by simp
    have ok: "parentOK h b c" using wfD(3) [OF wf b c] .
    show "parentOK ?h b c"
    proof (cases "c = a")
      case True
      with b c have "\<not> unheld L h a" by (auto simp: unheld_def)
      with p have "parent x = parent (h a)" by simp
      with ok True show ?thesis unfolding parentOK_def ty by simp
    next
      case False
      with ok show ?thesis unfolding parentOK_def ty by simp
    qed }
  { fix b assume "b \<in> L" then show "distinct (kids (?h b))"
      unfolding kd using wfD(4) [OF wf] by blast }
  { fix b d c assume "b \<in> L" "d \<in> L" "c \<in> set (kids (?h b))" "c \<in> set (kids (?h d))"
    then show "b = d" unfolding kd using wfD(5) [OF wf] by blast }
  { fix b assume b: "b \<in> L" and "ntype (?h b) = CharacterClass"
    then have "ntype (h b) = CharacterClass" unfolding ty by simp
    from wfD(6) [OF wf b this] show "classShape ?h b"
      unfolding classShape_def noIntersection_def ty el cl . }
  { fix b assume "b \<in> L" then show "b \<notin> set (kids (?h b))"
      unfolding kd using wfD(7) [OF wf] by blast }
qed

lemma unheld_fields: "kids x = kids (h a) \<Longrightarrow> unheld L (h(a := x)) c = unheld L h c"
  by (auto simp: unheld_def)

text \<open>A node whose kids are live and free joins the live nodes.\<close>

lemma wf_insert:
  assumes wf: "wellFormed L h n"
    and q: "q \<notin> L" "q < n"
    and k: "set (kids (h q)) \<subseteq> L" "distinct (kids (h q))"
      "\<forall>c\<in>set (kids (h q)). unheld L h c \<and> parentOK h q c"
    and sh: "ntype (h q) = CharacterClass \<longrightarrow> classShape h q"
  shows "wellFormed (insert q L) h n"
  unfolding wellFormed_def
proof (intro conjI ballI allI impI)
  { fix b assume "b \<in> insert q L" then show "b < n" using wfD(1) [OF wf] q by blast }
  { fix b assume "b \<in> insert q L" then show "set (kids (h b)) \<subseteq> insert q L"
      using wfD(2) [OF wf] k(1) by blast }
  { fix b c assume "b \<in> insert q L" "c \<in> set (kids (h b))"
    then show "parentOK h b c" using wfD(3) [OF wf] k(3) by blast }
  { fix b assume "b \<in> insert q L" then show "distinct (kids (h b))"
      using wfD(4) [OF wf] k(2) by blast }
  { fix b d c assume "b \<in> insert q L" "d \<in> insert q L"
      "c \<in> set (kids (h b))" "c \<in> set (kids (h d))"
    then show "b = d" using wfD(5) [OF wf] k(3) by (auto simp: unheld_def) }
  { fix b assume "b \<in> insert q L" "ntype (h b) = CharacterClass"
    then show "classShape h b" using wfD(6) [OF wf] sh by blast }
  { fix b assume "b \<in> insert q L" then show "b \<notin> set (kids (h b))"
      using wfD(7) [OF wf] k(1) q(1) by blast }
qed

lemma unheld_insert: "unheld (insert q L) h c \<longleftrightarrow> unheld L h c \<and> c \<notin> set (kids (h q))"
  by (auto simp: unheld_def)

text \<open>A free node leaves the live nodes, and its kids are free.\<close>

lemma wf_remove:
  assumes wf: "wellFormed L h n" and u: "unheld L h a"
  shows "wellFormed (L - {a}) h n"
  unfolding wellFormed_def
proof (intro conjI ballI allI impI)
  { fix b assume "b \<in> L - {a}" then show "b < n" using wfD(1) [OF wf] by blast }
  { fix b assume "b \<in> L - {a}" then show "set (kids (h b)) \<subseteq> L - {a}"
      using wfD(2) [OF wf] u by (auto simp: unheld_def) }
  { fix b c assume "b \<in> L - {a}" "c \<in> set (kids (h b))"
    then show "parentOK h b c" using wfD(3) [OF wf] by blast }
  { fix b assume "b \<in> L - {a}" then show "distinct (kids (h b))"
      using wfD(4) [OF wf] by blast }
  { fix b d c assume "b \<in> L - {a}" "d \<in> L - {a}"
      "c \<in> set (kids (h b))" "c \<in> set (kids (h d))"
    then show "b = d" using wfD(5) [OF wf] by blast }
  { fix b assume "b \<in> L - {a}" "ntype (h b) = CharacterClass"
    then show "classShape h b" using wfD(6) [OF wf] by blast }
  { fix b assume "b \<in> L - {a}" then show "b \<notin> set (kids (h b))"
      using wfD(7) [OF wf] by blast }
qed

lemma unheld_remove:
  "wellFormed L h n \<Longrightarrow> a \<in> L \<Longrightarrow> c \<in> set (kids (h a)) \<Longrightarrow> unheld (L - {a}) h c"
  unfolding unheld_def using wfD(5) by blast

lemma unheld_subset: "unheld L h c \<Longrightarrow> M \<subseteq> L \<Longrightarrow> unheld M h c"
  by (auto simp: unheld_def)

text \<open>Pushing a free live node onto \<open>elements\<close> or \<open>alternatives\<close> of a live node.\<close>

lemma kids_elements_update:
  "set (kids (x\<lparr>elements := es\<rparr>)) = set es \<union> (set (kids x) - (set (elements x) - set (alternatives x @ classes x @
     (case pattern x of None \<Rightarrow> [] | Some a \<Rightarrow> [a]) @
     (case flags x of None \<Rightarrow> [] | Some a \<Rightarrow> [a]) @
     (case element x of None \<Rightarrow> [] | Some a \<Rightarrow> [a]) @
     (case rmin x of None \<Rightarrow> [] | Some a \<Rightarrow> [a]) @
     (case rmax x of None \<Rightarrow> [] | Some a \<Rightarrow> [a]))))"
  by (auto simp: kids_def)

lemma kids_push: "set (kids (x\<lparr>elements := elements x @ [r]\<rparr>)) = insert r (set (kids x))"
  by (auto simp: kids_def)

lemma distinct_kids_push:
  "distinct (kids x) \<Longrightarrow> r \<notin> set (kids x) \<Longrightarrow> distinct (kids (x\<lparr>elements := elements x @ [r]\<rparr>))"
  by (auto simp: kids_def)

lemma kids_push_alt:
  "set (kids (x\<lparr>alternatives := alternatives x @ [r]\<rparr>)) = insert r (set (kids x))"
  by (auto simp: kids_def)

lemma distinct_kids_push_alt:
  "distinct (kids x) \<Longrightarrow> r \<notin> set (kids x) \<Longrightarrow>
   distinct (kids (x\<lparr>alternatives := alternatives x @ [r]\<rparr>))"
  by (auto simp: kids_def)

lemma wf_push_gen:
  assumes wf: "wellFormed L h n" and p: "p \<in> L" and r: "r \<in> L" "unheld L h r" "parentOK h p r" "r \<noteq> p"
    and x: "set (kids x) = insert r (set (kids (h p)))" "distinct (kids x)"
      "ntype x = ntype (h p)" "parent x = parent (h p)" "classes x = classes (h p)"
      "elements x = elements (h p) \<or> elements x = elements (h p) @ [r]"
    and sh: "ntype (h p) = CharacterClass \<longrightarrow> elements x = elements (h p) \<or>
        (noIntersection h p \<and> ntype (h r) \<noteq> CharacterClassIntersection)"
  shows "wellFormed L (h(p := x)) n"
  unfolding wellFormed_def
proof (intro conjI ballI allI impI)
  let ?h = "h(p := x)"
  have ty: "ntype (?h b) = ntype (h b)" for b using x(3) by simp
  have pa: "parent (?h b) = parent (h b)" for b using x(4) by simp
  have cl: "classes (?h b) = classes (h b)" for b using x(5) by simp
  have pok: "parentOK ?h b c = parentOK h b c" for b c unfolding parentOK_def ty pa ..
  have kd: "set (kids (?h b)) = (if b = p then insert r (set (kids (h b))) else set (kids (h b)))" for b
    using x(1) by simp
  { fix b assume "b \<in> L" then show "b < n" using wfD(1) [OF wf] by blast }
  { fix b assume "b \<in> L" then show "set (kids (?h b)) \<subseteq> L"
      unfolding kd using wfD(2) [OF wf] r(1) by auto }
  { fix b c assume "b \<in> L" "c \<in> set (kids (?h b))"
    then show "parentOK ?h b c"
      unfolding pok kd using wfD(3) [OF wf] r(3) by (auto split: if_splits) }
  { fix b assume "b \<in> L" then show "distinct (kids (?h b))"
      using wfD(4) [OF wf] x(2) by simp }
  { fix b d c assume "b \<in> L" "d \<in> L" "c \<in> set (kids (?h b))" "c \<in> set (kids (?h d))"
    then show "b = d"
      unfolding kd using wfD(5) [OF wf, of b d c] r(2) by (auto simp: unheld_def split: if_splits) }
  { fix b assume b: "b \<in> L" and "ntype (?h b) = CharacterClass"
    then have t: "ntype (h b) = CharacterClass" unfolding ty by simp
    have old: "classShape h b" using wfD(6) [OF wf b t] .
    show "classShape ?h b"
    proof (cases "b = p")
      case False
      with old show ?thesis unfolding classShape_def noIntersection_def ty cl by simp
    next
      case True
      from sh t True consider "elements x = elements (h p)"
        | "elements x = elements (h p) @ [r]" "noIntersection h p"
          "ntype (h r) \<noteq> CharacterClassIntersection"
        using x(6) by auto
      then show ?thesis
      proof cases
        case 1
        with old True show ?thesis unfolding classShape_def noIntersection_def ty cl by simp
      next
        case 2
        then have "noIntersection ?h p" unfolding noIntersection_def ty by auto
        with True show ?thesis by (simp add: classShape_def)
      qed
    qed }
  { fix b assume "b \<in> L" then show "b \<notin> set (kids (?h b))"
      unfolding kd using wfD(7) [OF wf] r(4) by auto }
qed

lemma wf_push:
  assumes "wellFormed L h n" and "p \<in> L" and "r \<in> L" "unheld L h r" "parentOK h p r" "r \<noteq> p"
    and "ntype (h p) = CharacterClass \<longrightarrow>
           noIntersection h p \<and> ntype (h r) \<noteq> CharacterClassIntersection"
  shows "wellFormed L (h(p := (h p)\<lparr>elements := elements (h p) @ [r]\<rparr>)) n"
proof (rule wf_push_gen [OF assms(1-6)])
  have "r \<notin> set (kids (h p))" using assms(2,4) by (auto simp: unheld_def)
  then show "distinct (kids ((h p)\<lparr>elements := elements (h p) @ [r]\<rparr>))"
    using wfD(4) [OF assms(1,2)] by (rule distinct_kids_push [rotated])
qed (use assms(7) in \<open>auto simp: kids_push\<close>)

lemma wf_push_alt:
  assumes "wellFormed L h n" and "p \<in> L" and "r \<in> L" "unheld L h r" "parentOK h p r" "r \<noteq> p"
  shows "wellFormed L (h(p := (h p)\<lparr>alternatives := alternatives (h p) @ [r]\<rparr>)) n"
proof (rule wf_push_gen [OF assms(1-6)])
  have "r \<notin> set (kids (h p))" using assms(2,4) by (auto simp: unheld_def)
  then show "distinct (kids ((h p)\<lparr>alternatives := alternatives (h p) @ [r]\<rparr>))"
    using wfD(4) [OF assms(1,2)] by (rule distinct_kids_push_alt [rotated])
qed (auto simp: kids_push_alt)

lemma wf_pop:
  assumes wf: "wellFormed L h n" and p: "p \<in> L"
  shows "wellFormed L (h(p := (h p)\<lparr>elements := butlast (elements (h p))\<rparr>)) n"
  unfolding wellFormed_def
proof (intro conjI ballI allI impI)
  let ?x = "(h p)\<lparr>elements := butlast (elements (h p))\<rparr>"
  let ?h = "h(p := ?x)"
  have ty: "ntype (?h b) = ntype (h b)" for b by simp
  have pa: "parent (?h b) = parent (h b)" for b by simp
  have cl: "classes (?h b) = classes (h b)" for b by simp
  have pok: "parentOK ?h b c = parentOK h b c" for b c unfolding parentOK_def ty pa ..
  have sub: "set (kids (?h b)) \<subseteq> set (kids (h b))" for b
    by (auto simp: kids_def dest: in_set_butlastD)
  have els: "set (elements (?h b)) \<subseteq> set (elements (h b))" for b
    by (auto dest: in_set_butlastD)
  have dist: "distinct (kids (h b)) \<Longrightarrow> distinct (kids (?h b))" for b
    by (auto simp: kids_def distinct_butlast dest: in_set_butlastD)
  { fix b assume "b \<in> L" then show "b < n" using wfD(1) [OF wf] by blast }
  { fix b assume "b \<in> L" then show "set (kids (?h b)) \<subseteq> L"
      using wfD(2) [OF wf] sub by blast }
  { fix b c assume "b \<in> L" "c \<in> set (kids (?h b))"
    then show "parentOK ?h b c" unfolding pok using wfD(3) [OF wf] sub by blast }
  { fix b assume "b \<in> L" then show "distinct (kids (?h b))"
      using wfD(4) [OF wf] dist by blast }
  { fix b d c assume "b \<in> L" "d \<in> L" "c \<in> set (kids (?h b))" "c \<in> set (kids (?h d))"
    then show "b = d" using wfD(5) [OF wf, of b d c] sub by blast }
  { fix b assume b: "b \<in> L" and "ntype (?h b) = CharacterClass"
    then have t: "ntype (h b) = CharacterClass" unfolding ty by simp
    from wfD(6) [OF wf b t] show "classShape ?h b"
      unfolding classShape_def noIntersection_def ty cl
      by (cases "b = p") (auto dest: in_set_butlastD) }
  { fix b assume "b \<in> L" then show "b \<notin> set (kids (?h b))"
      using wfD(7) [OF wf, of b] sub [of b] by blast }
qed

lemma unheld_pop:
  assumes wf: "wellFormed L h n" and p: "p \<in> L" and ne: "elements (h p) \<noteq> []"
  shows "unheld L (h(p := (h p)\<lparr>elements := butlast (elements (h p))\<rparr>)) (last (elements (h p)))"
  unfolding unheld_def
proof
  let ?x = "(h p)\<lparr>elements := butlast (elements (h p))\<rparr>"
  let ?l = "last (elements (h p))"
  fix b assume b: "b \<in> L"
  have lk: "?l \<in> set (kids (h p))" using ne elements_kids last_in_set by blast
  have es: "elements (h p) = butlast (elements (h p)) @ [?l]" using ne by simp
  have "distinct (kids (h p))" using wfD(4) [OF wf p] .
  then have "distinct ((butlast (elements (h p)) @ [?l]) @ drop (length (elements (h p))) (kids (h p)))"
    using es by (simp add: kids_def)
  then have "?l \<notin> set (kids ?x)"
    by (auto simp: kids_def)
  moreover have "?l \<notin> set (kids (h b))" if "b \<noteq> p"
    using wfD(5) [OF wf b p _ lk] that by blast
  ultimately show "?l \<notin> set (kids ((h(p := ?x)) b))" by simp
qed

lemma unheld_pop_other:
  "unheld L h c \<Longrightarrow> unheld L (h(p := (h p)\<lparr>elements := butlast (elements (h p))\<rparr>)) c"
  by (auto simp: unheld_def kids_def dest: in_set_butlastD)

lemma unheld_push:
  "unheld L h c \<Longrightarrow> c \<noteq> r \<Longrightarrow> unheld L (h(p := (h p)\<lparr>elements := elements (h p) @ [r]\<rparr>)) c"
  by (auto simp: unheld_def kids_def)

lemma unheld_push_alt:
  "unheld L h c \<Longrightarrow> c \<noteq> r \<Longrightarrow>
   unheld L (h(p := (h p)\<lparr>alternatives := alternatives (h p) @ [r]\<rparr>)) c"
  by (auto simp: unheld_def kids_def)

lemma unheld_fresh: "wellFormed L h n \<Longrightarrow> n \<le> c \<Longrightarrow> unheld L h c"
  unfolding unheld_def using wfD(1,2) by (metis not_le subsetD subsetI)

subsection \<open>States\<close>

lemma heap_upd [simp]: "heap (upd a f s) = (heap s)(a := f (heap s a))"
  and next_upd [simp]: "next_addr (upd a f s) = next_addr s"
  and current_upd [simp]: "current (upd a f s) = current s"
  by (simp_all add: upd_def)

lemma new_node_simps [simp]:
  "fst (new_node x s) = next_addr s"
  "heap (snd (new_node x s)) = (heap s)(next_addr s := x)"
  "next_addr (snd (new_node x s)) = Suc (next_addr s)"
  "current (snd (new_node x s)) = current s"
  by (simp_all add: new_node_def)

lemma stepped_cong:
  "heap s0 = heap s \<Longrightarrow> next_addr s0 = next_addr s \<Longrightarrow>
   heap s1 = heap s' \<Longrightarrow> next_addr s1 = next_addr s' \<Longrightarrow>
   stepped L s0 p r L' s1 = stepped L s p r L' s'"
  by (simp add: stepped_def)

text \<open>A new node without kids.\<close>

lemma stepped_leaf:
  assumes wf: "wellFormed L (heap s) (next_addr s)" and p: "p \<in> L"
    and s': "heap s' = (heap s)(next_addr s := x)" "next_addr s' = Suc (next_addr s)"
    and x: "kids x = []" "ntype x \<noteq> CharacterClassIntersection"
  shows "stepped L s p (next_addr s) (insert (next_addr s) L) s'"
proof -
  let ?r = "next_addr s"
  let ?h = "(heap s)(?r := x)"
  have nL: "?r \<notin> L" using wfD(1) [OF wf] by blast
  have 1: "wellFormed L ?h (Suc ?r)" by (rule wf_mono [OF wf_outside [OF wf nL]]) simp
  have el: "elements x = []" using x(1) by (simp add: kids_def)
  have "wellFormed (insert ?r L) ?h (Suc ?r)"
    by (rule wf_insert [OF 1 nL]) (use x el in \<open>auto simp: classShape_def noIntersection_def\<close>)
  moreover have "unheld (insert ?r L) ?h ?r"
    using unheld_fresh [OF wf, of ?r] nL x(1) by (auto simp: unheld_def)
  moreover have "unheld (insert ?r L) ?h c" if "unheld L (heap s) c" for c
    using that nL x(1) by (auto simp: unheld_def)
  moreover have "p \<noteq> ?r" using p nL by blast
  moreover have "\<exists>es. ?h p = (heap s p)\<lparr>elements := es\<rparr> \<and> set es \<subseteq> set (elements (heap s p))"
    using \<open>p \<noteq> ?r\<close> by (intro exI [of _ "elements (heap s p)"]) simp
  ultimately show ?thesis
    unfolding stepped_def s' using x(2) by auto
qed

lemma parseQuantifier_Inr:
  assumes "parseQuantifier s p mn mx g po = Inr (r, s')"
  shows "elements (heap s p) \<noteq> []" and "r = next_addr s" and "next_addr s' = Suc (next_addr s)"
    and "\<exists>qn. kids qn = [last (elements (heap s p))] \<and> ntype qn = Quantifier \<and>
           parent qn = Some p \<and>
           heap s' =
             (let x = last (elements (heap s p));
                  h1 = (heap s)(r := qn);
                  h2 = h1(x := (h1 x)\<lparr>parent := Some r\<rparr>)
              in h2(p := (h2 p)\<lparr>elements := butlast (elements (h2 p))\<rparr>))"
proof -
  from assms show ne: "elements (heap s p) \<noteq> []"
    by (auto simp: parseQuantifier_def split: if_splits)
  let ?qn = "(getNodeBase (Some p) Quantifier)
      \<lparr>qmin := mn, qmax := mx, greedy := g, possessive := po,
       element := Some (last (elements (heap s p)))\<rparr>"
  from assms ne have c: "createQuantifier (Some p) (Some (last (elements (heap s p)))) mn mx g po s =
      Inr (next_addr s, snd (new_node ?qn s))"
    and r: "r = next_addr s"
    and s': "s' = upd p (\<lambda>n. n\<lparr>elements := butlast (elements n)\<rparr>)
        (upd (last (elements (heap s p))) (\<lambda>n. n\<lparr>parent := Some (next_addr s)\<rparr>)
           (snd (new_node ?qn s)))"
    by (auto simp: parseQuantifier_def createQuantifier_def at_last_def new_node_def
          split: if_splits option.splits sum.splits)
  show "r = next_addr s" by fact
  show "next_addr s' = Suc (next_addr s)" unfolding s' by simp
  have "kids ?qn = [last (elements (heap s p))]" "ntype ?qn = Quantifier" "parent ?qn = Some p"
    by (simp_all add: kids_def getNodeBase_def)
  moreover have "heap s' =
             (let x = last (elements (heap s p));
                  h1 = (heap s)(r := ?qn);
                  h2 = h1(x := (h1 x)\<lparr>parent := Some r\<rparr>)
              in h2(p := (h2 p)\<lparr>elements := butlast (elements (h2 p))\<rparr>))"
    unfolding s' r by (simp add: Let_def)
  ultimately show "\<exists>qn. kids qn = [last (elements (heap s p))] \<and> ntype qn = Quantifier \<and>
           parent qn = Some p \<and>
           heap s' =
             (let x = last (elements (heap s p));
                  h1 = (heap s)(r := qn);
                  h2 = h1(x := (h1 x)\<lparr>parent := Some r\<rparr>)
              in h2(p := (h2 p)\<lparr>elements := butlast (elements (h2 p))\<rparr>))"
    by blast
qed

text \<open>Wrapping the last element of a live node in a new node \<open>q\<close>.\<close>

lemma stepped_wrap:
  assumes wf: "wellFormed L (heap s) (next_addr s)" and p: "p \<in> L" and ne: "elements (heap s p) \<noteq> []"
    and qn: "kids qn = [last (elements (heap s p))]" "ntype qn = Quantifier"
    and h': "heap s' =
             (let x = last (elements (heap s p));
                  h1 = (heap s)(next_addr s := qn);
                  h2 = h1(x := (h1 x)\<lparr>parent := Some (next_addr s)\<rparr>)
              in h2(p := (h2 p)\<lparr>elements := butlast (elements (h2 p))\<rparr>))"
      "next_addr s' = Suc (next_addr s)"
  shows "stepped L s p (next_addr s) (insert (next_addr s) L) s'"
proof -
  let ?q = "next_addr s"
  let ?h0 = "heap s"
  let ?x = "last (elements (?h0 p))"
  have xk: "?x \<in> set (kids (?h0 p))" using ne elements_kids last_in_set by blast
  have xL: "?x \<in> L" using wfD(2) [OF wf p xk] .
  have qL: "?q \<notin> L" using wfD(1) [OF wf] by blast
  have xp: "?x \<noteq> p" using wfD(7) [OF wf p] xk by metis
  have xq: "?x \<noteq> ?q" and pq: "p \<noteq> ?q" using xL p qL by auto
  let ?h1 = "?h0(?q := qn)"
  let ?hA = "?h1(p := (?h1 p)\<lparr>elements := butlast (elements (?h1 p))\<rparr>)"
  let ?hB = "?hA(?x := (?hA ?x)\<lparr>parent := Some ?q\<rparr>)"
  have eq: "heap s' = ?hB"
    unfolding h' Let_def using xp xq pq by (auto simp: fun_eq_iff)
  have p1: "?h1 p = ?h0 p" using pq by simp
  have w1: "wellFormed L ?h1 (Suc ?q)" by (rule wf_mono [OF wf_outside [OF wf qL]]) simp
  have wA: "wellFormed L ?hA (Suc ?q)" by (rule wf_pop [OF w1 p])
  have uA: "unheld L ?hA ?x"
    using unheld_pop [OF w1 p] ne p1 by simp
  have wB: "wellFormed L ?hB (Suc ?q)"
    by (rule wf_fields [OF wA]) (use uA in \<open>simp_all add: kids_def\<close>)
  have uB: "unheld L ?hB ?x"
    using uA by (subst unheld_fields) (simp_all add: kids_def)
  have kq: "kids (?hB ?q) = [?x]" using qn(1) xq pq by simp
  have wC: "wellFormed (insert ?q L) ?hB (Suc ?q)"
    by (rule wf_insert [OF wB qL])
       (use kq xL uB qn(2) xq pq in \<open>auto simp: parentOK_def\<close>)
  have "unheld L ?hB ?q"
    unfolding unheld_def using wfD(2) [OF wB] qL by blast
  then have uq: "unheld (insert ?q L) ?hB ?q"
    unfolding unheld_insert kq using xq by simp
  have frame: "?hB a = ?h0 a" if "a \<noteq> p" "a \<noteq> ?x" "a \<noteq> ?q" for a
    using that by simp
  have uc: "unheld (insert ?q L) ?hB c" if "c \<noteq> ?x" "unheld L ?h0 c" for c
  proof -
    have "unheld L ?h1 c" using that(2) qL by (auto simp: unheld_def)
    then have "unheld L ?hA c" by (rule unheld_pop_other)
    then have "unheld L ?hB c" by (subst unheld_fields) (simp_all add: kids_def)
    with that(1) kq show ?thesis by (simp add: unheld_insert)
  qed
  have xel: "?x \<in> set (elements (?h0 p))" using ne by simp
  show ?thesis
    unfolding stepped_def eq h'(2)
  proof (intro conjI allI impI)
    show "wellFormed (insert ?q L) ?hB (Suc ?q)" by (rule wC)
    show "unheld (insert ?q L) ?hB ?q" by (rule uq)
    show "ntype (?hB ?q) \<noteq> CharacterClassIntersection" using qn(2) xq pq by simp
    show "\<exists>es. ?hB p = (?h0 p)\<lparr>elements := es\<rparr> \<and> set es \<subseteq> set (elements (?h0 p))"
      using xq pq xp
      by (intro exI [of _ "butlast (elements (?h0 p))"]) (auto dest: in_set_butlastD)
  next
    assume "ntype (?hB ?q) = Character"
    then show "?hB p = ?h0 p" using qn(2) xq pq by simp
  next
    fix a assume "a < ?q" "a \<noteq> p" "a \<notin> set (elements (?h0 p))"
    with xel show "?hB a = ?h0 a" by (intro frame) auto
  next
    fix a assume "a < ?q"
    then show "ntype (?hB a) = ntype (?h0 a)" by simp
  next
    fix c assume "c < ?q" "c \<notin> set (elements (?h0 p))" "unheld L ?h0 c"
    with xel show "unheld (insert ?q L) ?hB c" by (intro uc) auto
  qed auto
qed

lemma stepped_quantifier:
  assumes wf: "wellFormed L (heap s) (next_addr s)" and p: "p \<in> L"
    and q: "parseQuantifier s p mn mx g po = Inr (r, s')"
  shows "stepped L s p r (insert r L) s' \<and> ntype (heap s' r) \<noteq> Alternative \<and>
         parent (heap s' r) = Some p"
proof -
  note f = parseQuantifier_Inr [OF q]
  from f(4) obtain qn where qn: "kids qn = [last (elements (heap s p))]" "ntype qn = Quantifier"
      "parent qn = Some p"
    and h': "heap s' =
             (let x = last (elements (heap s p));
                  h1 = (heap s)(r := qn);
                  h2 = h1(x := (h1 x)\<lparr>parent := Some r\<rparr>)
              in h2(p := (h2 p)\<lparr>elements := butlast (elements (h2 p))\<rparr>))"
    by blast
  have st: "stepped L s p r (insert r L) s'"
    unfolding f(2) by (rule stepped_wrap [OF wf p f(1) qn(1,2) h' [unfolded f(2)] f(3)])
  have xk: "last (elements (heap s p)) \<in> set (kids (heap s p))"
    using f(1) elements_kids last_in_set by blast
  have "p \<noteq> r" "last (elements (heap s p)) \<noteq> r"
    using wfD(1) [OF wf p] wfD(1) [OF wf wfD(2) [OF wf p xk]] f(2) by auto
  then have "ntype (heap s' r) = Quantifier" "parent (heap s' r) = Some p"
    unfolding h' Let_def using qn by auto
  with st show ?thesis by simp
qed

lemma unheld_new: "wellFormed L h n \<Longrightarrow> q \<notin> L \<Longrightarrow> unheld L h q"
  unfolding unheld_def using wfD(2) by blast

lemma hyphen_cases:
  assumes "parseCharacterClassHyphen w s p nt = Inr (r, s')"
  shows "(r, s') = createCharacter (Some p) 45 s \<or>
     (\<exists>nx s1 rn. elements (heap s p) \<noteq> [] \<and> w s p = Inr (nx, s1) \<and>
        ntype (heap s1 (last (elements (heap s p)))) = Character \<and>
        ntype (heap s1 nx) = Character \<and> r = next_addr s1 \<and>
        next_addr s' = Suc (next_addr s1) \<and>
        kids rn = [last (elements (heap s p)), nx] \<and> ntype rn = CharacterClassRange \<and>
        parent rn = Some p \<and>
        heap s' =
          (let prev = last (elements (heap s p));
               hA = (heap s1)(p := (heap s1 p)\<lparr>elements := butlast (elements (heap s1 p))\<rparr>);
               hB = hA(r := rn);
               hC = hB(prev := (hB prev)\<lparr>parent := Some r\<rparr>)
           in hC(nx := (hC nx)\<lparr>parent := Some r\<rparr>)))"
proof (cases "rangeEligible s p nt")
  case False
  have he: "hasElements (heap s p)"
    using assms by (auto simp: parseCharacterClassHyphen_def split: if_splits)
  with False assms show ?thesis by (simp add: hyphen_literal)
next
  case e: True
  have he: "hasElements (heap s p)"
    using assms by (auto simp: parseCharacterClassHyphen_def split: if_splits)
  note True = hyphen_range [OF he e]
  from e have ne: "elements (heap s p) \<noteq> []" by (simp add: rangeEligible_def)
  let ?prev = "last (elements (heap s p))"
  from assms obtain nx s1 where w: "w s p = Inr (nx, s1)"
    unfolding True by (auto split: sum.splits)
  let ?rn = "(getNodeBase (Some p) CharacterClassRange)\<lparr>rmin := Some ?prev, rmax := Some nx\<rparr>"
  from assms have ty: "ntype (heap s1 ?prev) = Character" "ntype (heap s1 nx) = Character"
    unfolding True w by (auto split: if_splits)
  from assms ty have r: "r = next_addr s1"
    and s': "s' = upd nx (\<lambda>n. n\<lparr>parent := Some r\<rparr>)
        (upd ?prev (\<lambda>n. n\<lparr>parent := Some r\<rparr>)
          (snd (new_node ?rn (upd p (\<lambda>n. n\<lparr>elements := butlast (elements n)\<rparr>) s1))))"
    unfolding True w
    by (auto simp: createCharacterClassRange_def Let_def new_node_def split: if_splits)
  have "kids ?rn = [?prev, nx]" "ntype ?rn = CharacterClassRange" "parent ?rn = Some p"
    by (simp_all add: kids_def getNodeBase_def)
  moreover have "next_addr s' = Suc (next_addr s1)" unfolding s' by simp
  moreover have "heap s' =
          (let prev = ?prev;
               hA = (heap s1)(p := (heap s1 p)\<lparr>elements := butlast (elements (heap s1 p))\<rparr>);
               hB = hA(r := ?rn);
               hC = hB(prev := (hB prev)\<lparr>parent := Some r\<rparr>)
           in hC(nx := (hC nx)\<lparr>parent := Some r\<rparr>))"
    unfolding s' r by (simp add: Let_def)
  ultimately show ?thesis using ne w ty r by blast
qed

lemma stepped_hyphen:
  assumes snd: "sound tokens w"
    and wf: "wellFormed L (heap s) (next_addr s)" and p: "p \<in> L"
    and res: "parseCharacterClassHyphen w s p nt = Inr (r, s')"
  shows "\<exists>L'. stepped L s p r L' s' \<and> ntype (heap s' r) \<noteq> Alternative \<and>
           parent (heap s' r) = Some p"
  using hyphen_cases [OF res]
proof (elim disjE exE conjE)
  assume "(r, s') = createCharacter (Some p) 45 s"
  then have r: "r = next_addr s"
    and s': "heap s' = (heap s)(next_addr s := (getNodeBase (Some p) Character)\<lparr>cvalue := 45\<rparr>)"
      "next_addr s' = Suc (next_addr s)"
    by (auto simp: createCharacter_def new_node_def)
  have "stepped L s p (next_addr s) (insert (next_addr s) L) s'"
    by (rule stepped_leaf [OF wf p s']) (simp_all add: kids_def getNodeBase_def)
  then show ?thesis unfolding r s' by (auto simp: getNodeBase_def)
next
  fix nx s1 rn
  let ?h0 = "heap s" and ?n0 = "next_addr s"
  let ?prev = "last (elements (?h0 p))"
  assume ne: "elements (?h0 p) \<noteq> []" and w: "w s p = Inr (nx, s1)"
    and ty: "ntype (heap s1 ?prev) = Character" "ntype (heap s1 nx) = Character"
    and r: "r = next_addr s1" and n': "next_addr s' = Suc (next_addr s1)"
    and rn: "kids rn = [?prev, nx]" "ntype rn = CharacterClassRange" "parent rn = Some p"
    and h': "heap s' =
          (let prev = ?prev;
               hA = (heap s1)(p := (heap s1 p)\<lparr>elements := butlast (elements (heap s1 p))\<rparr>);
               hB = hA(r := rn);
               hC = hB(prev := (hB prev)\<lparr>parent := Some r\<rparr>)
           in hC(nx := (hC nx)\<lparr>parent := Some r\<rparr>))"
  from snd wf p w obtain L1 where wk: "walked tokens L s p nx L1 s1"
    unfolding sound_def by blast
  then have st: "stepped L s p nx L1 s1" by (simp add: walked_def)
  let ?h1 = "heap s1" and ?n1 = "next_addr s1"
  from st have w1: "wellFormed L1 ?h1 ?n1" and LL: "L \<subseteq> L1" and L1: "L1 \<subseteq> L \<union> {?n0..<?n1}"
    and nx: "?n0 \<le> nx" "nx \<in> L1" "unheld L1 ?h1 nx"
    and f24: "\<forall>a<?n0. a \<noteq> p \<longrightarrow> a \<notin> set (elements (?h0 p)) \<longrightarrow> ?h1 a = ?h0 a"
    and f3: "?h1 p = ?h0 p"
    and f7: "\<forall>a<?n0. ntype (?h1 a) = ntype (?h0 a)"
    and f5: "\<forall>c<?n0. c \<notin> set (elements (?h0 p)) \<longrightarrow> unheld L ?h0 c \<longrightarrow> unheld L1 ?h1 c"
    using ty(2) unfolding stepped_def by blast+
  have pk: "?prev \<in> set (kids (?h0 p))" using ne elements_kids last_in_set by blast
  have pel: "?prev \<in> set (elements (?h0 p))" using ne by simp
  have pL: "?prev \<in> L" using wfD(2) [OF wf p pk] .
  have p1: "p \<in> L1" and pL1: "?prev \<in> L1" using p pL LL by auto
  have n01: "?n0 \<le> ?n1" using wfD(1) [OF w1 nx(2)] nx(1) by simp
  have rL: "r \<notin> L1" using wfD(1) [OF w1] r by blast
  have lt: "?prev < ?n0" "p < ?n0" using wfD(1) [OF wf] pL p by auto
  have ne1: "?prev \<noteq> nx" "p \<noteq> nx" "?prev \<noteq> r" "p \<noteq> r" "nx \<noteq> r" "?prev \<noteq> p"
    using lt nx(1) n01 r wfD(1) [OF w1 nx(2)] wfD(7) [OF wf p] pk by auto
  let ?hA = "?h1(p := (?h1 p)\<lparr>elements := butlast (elements (?h1 p))\<rparr>)"
  let ?hB = "?hA(r := rn)"
  let ?hC = "?hB(?prev := (?hB ?prev)\<lparr>parent := Some r\<rparr>)"
  let ?hD = "?hC(nx := (?hC nx)\<lparr>parent := Some r\<rparr>)"
  have eq: "heap s' = ?hD" unfolding h' Let_def ..
  have wA: "wellFormed L1 ?hA ?n1" by (rule wf_pop [OF w1 p1])
  have uAp: "unheld L1 ?hA ?prev" using unheld_pop [OF w1 p1] ne f3 by simp
  have uAn: "unheld L1 ?hA nx" by (rule unheld_pop_other [OF nx(3)])
  have wB: "wellFormed L1 ?hB (Suc ?n1)" by (rule wf_mono [OF wf_outside [OF wA rL]]) simp
  have uB: "unheld L1 ?hB c" if "unheld L1 ?hA c" for c
    using that rL by (auto simp: unheld_def)
  have wC: "wellFormed L1 ?hC (Suc ?n1)"
    by (rule wf_fields [OF wB]) (use uB [OF uAp] in \<open>simp_all add: kids_def\<close>)
  have uC: "unheld L1 ?hC c" if "unheld L1 ?hA c" for c
    using uB [OF that] by (subst unheld_fields) (simp_all add: kids_def)
  have wD: "wellFormed L1 ?hD (Suc ?n1)"
    by (rule wf_fields [OF wC]) (use uC [OF uAn] in \<open>simp_all add: kids_def\<close>)
  have uD: "unheld L1 ?hD c" if "unheld L1 ?hA c" for c
    using uC [OF that] by (subst unheld_fields) (simp_all add: kids_def)
  have kr: "kids (?hD r) = [?prev, nx]" using rn(1) ne1 by simp
  have wE: "wellFormed (insert r L1) ?hD (Suc ?n1)"
    by (rule wf_insert [OF wD rL])
       (use kr pL1 nx(2) uD [OF uAp] uD [OF uAn] rn(2) ne1 r in \<open>auto simp: parentOK_def\<close>)
  have ur: "unheld (insert r L1) ?hD r"
    unfolding unheld_insert kr using unheld_new [OF wD rL] ne1 by simp
  have uc: "unheld (insert r L1) ?hD c"
    if "c < ?n0" "c \<notin> set (elements (?h0 p))" "unheld L ?h0 c" for c
  proof -
    from that f5 have "unheld L1 ?h1 c" by blast
    then have "unheld L1 ?hA c" by (rule unheld_pop_other)
    from uD [OF this] that(1,2) pel nx(1) kr show ?thesis
      by (auto simp: unheld_insert)
  qed
  have "stepped L s p r (insert r L1) s'"
    unfolding stepped_def eq n'
  proof (intro conjI allI impI)
    show "wellFormed (insert r L1) ?hD (Suc ?n1)" by (rule wE)
    show "L \<subseteq> insert r L1" using LL by blast
    show "insert r L1 \<subseteq> L \<union> {?n0..<Suc ?n1}" using L1 r n01 by auto
    show "?n0 \<le> r" using r n01 by simp
    show "unheld (insert r L1) ?hD r" by (rule ur)
    show "ntype (?hD r) \<noteq> CharacterClassIntersection" using rn(2) ne1 by simp
    show "\<exists>es. ?hD p = (?h0 p)\<lparr>elements := es\<rparr> \<and> set es \<subseteq> set (elements (?h0 p))"
      using ne1 f3
      by (intro exI [of _ "butlast (elements (?h0 p))"]) (auto dest: in_set_butlastD)
  next
    assume "ntype (?hD r) = Character"
    then show "?hD p = ?h0 p" using rn(2) ne1 by simp
  next
    fix a assume a: "a < ?n0" "a \<noteq> p" "a \<notin> set (elements (?h0 p))"
    then have "?h1 a = ?h0 a" using f24 by blast
    moreover have "a \<noteq> ?prev" "a \<noteq> nx" "a \<noteq> r" using a pel nx(1) r n01 by auto
    ultimately show "?hD a = ?h0 a" using a(2) by simp
  next
    fix a assume "a < ?n0"
    then show "ntype (?hD a) = ntype (?h0 a)" using f7 r n01 by simp
  next
    fix c assume "c < ?n0" "c \<notin> set (elements (?h0 p))" "unheld L ?h0 c"
    then show "unheld (insert r L1) ?hD c" by (rule uc)
  qed simp
  moreover have "ntype (?hD r) = CharacterClassRange" "parent (?hD r) = Some p"
    using rn ne1 by simp_all
  ultimately show ?thesis unfolding eq by auto
qed

lemma kids_only_alternatives:
  "kids x = alternatives x \<Longrightarrow> kids (x\<lparr>alternatives := ys\<rparr>) = ys"
proof -
  assume a: "kids x = alternatives x"
  let ?rest = "classes x @
     (case pattern x of None \<Rightarrow> [] | Some a \<Rightarrow> [a]) @
     (case flags x of None \<Rightarrow> [] | Some a \<Rightarrow> [a]) @
     (case element x of None \<Rightarrow> [] | Some a \<Rightarrow> [a]) @
     (case rmin x of None \<Rightarrow> [] | Some a \<Rightarrow> [a]) @
     (case rmax x of None \<Rightarrow> [] | Some a \<Rightarrow> [a])"
  from a have "length (elements x @ alternatives x @ ?rest) = length (alternatives x)"
    by (simp add: kids_def)
  then have "elements x = []" "?rest = []" by auto
  then show ?thesis by (simp add: kids_def)
qed

lemma createByGroupKind_Inr:
  assumes "createByGroupKind E (Some p) token s = Inr (G, s1)"
  shows "G = next_addr s" and "next_addr s1 = Suc (Suc (next_addr s))"
    and "\<forall>b. b \<noteq> G \<longrightarrow> b \<noteq> Suc G \<longrightarrow> heap s1 b = heap s b"
    and "alternatives (heap s1 G) = [Suc G]" and "kids (heap s1 G) = [Suc G]"
    and "parent (heap s1 G) = Some p"
    and "ntype (heap s1 G) \<in> {Group, CapturingGroup, Assertion}"
    and "kids (heap s1 (Suc G)) = []" and "ntype (heap s1 (Suc G)) = Alternative"
    and "parent (heap s1 (Suc G)) = Some G" and "elements (heap s1 (Suc G)) = []"
    and "current s1 = current s"
  using assms
  by (auto simp: createByGroupKind_def createGroup_def createCapturingGroup_def
        createAssertionFromToken_def withInitialAlternative_def createAlternative_def
        new_node_def upd_def kids_def getNodeBase_def Let_def
      split: token.splits TokenGroupKinds.splits if_splits)

lemma getOptimizedGroup_cases:
  assumes "getOptimizedGroup G s = Inr (r, s')"
  shows "(r = G \<and> s' = s) \<or>
     (\<exists>A el x. alternatives (heap s G) = [A] \<and> elements (heap s A) = [el] \<and>
        ntype (heap s el) = Group \<and> ntype (heap s G) = Group \<and> r = el \<and>
        heap s' = (heap s)(el := x) \<and> next_addr s' = next_addr s \<and>
        kids x = kids (heap s el) \<and> elements x = elements (heap s el) \<and>
        classes x = classes (heap s el) \<and> ntype x = ntype (heap s el) \<and>
        parent x = parent (heap s G))"
proof -
  let ?alts = "alternatives (heap s G)"
  from assms obtain A where A: "at_index ?alts 0 = Some A"
    by (auto simp: getOptimizedGroup_def split: option.splits)
  show ?thesis
  proof (cases "at_index (elements (heap s A)) 0")
    case None
    with assms A show ?thesis by (simp add: getOptimizedGroup_def)
  next
    case (Some el)
    let ?c = "ntype (heap s G) = Group \<and> length ?alts = 1 \<and>
        length (elements (heap s A)) = 1 \<and> ntype (heap s el) = Group \<and>
        \<not> (atomic (heap s G) \<and> gflags (heap s el) \<noteq> None) \<and>
        \<not> (gflags (heap s G) \<noteq> None \<and> (atomic (heap s el) \<or> gflags (heap s el) \<noteq> None))"
    show ?thesis
    proof (cases ?c)
      case False
      with assms A Some show ?thesis by (auto simp: getOptimizedGroup_def)
    next
      case True
      from True A have alts: "?alts = [A]"
        by (cases ?alts) (auto simp: at_index_def)
      from True Some have els: "elements (heap s A) = [el]"
        by (cases "elements (heap s A)") (auto simp: at_index_def)
      define s1 where "s1 = upd el (\<lambda>n. n\<lparr>parent := parent (heap s G)\<rparr>) s"
      define s2 where "s2 =
          (if atomic (heap s1 G) then upd el (\<lambda>n. n\<lparr>atomic := True\<rparr>) s1
           else if gflags (heap s1 G) \<noteq> None
           then upd el (\<lambda>n. n\<lparr>gflags := gflags (heap s1 G)\<rparr>) s1
           else s1)"
      have c: "?c = True" using True by simp
      have "getOptimizedGroup G s = Inr (el, s2)"
        unfolding getOptimizedGroup_def A Some option.case c if_True Let_def s2_def s1_def ..
      with assms have r: "r = el" and s': "s' = s2" by simp_all
      have n: "next_addr s' = next_addr s" unfolding s' s2_def s1_def by simp
      let ?x = "heap s' el"
      have h1: "heap s1 = (heap s)(el := (heap s el)\<lparr>parent := parent (heap s G)\<rparr>)"
        unfolding s1_def by simp
      have h2: "heap s2 = (heap s1)(el := heap s2 el)"
        unfolding s2_def by (simp add: fun_eq_iff)
      have h: "heap s' = (heap s)(el := ?x)"
        unfolding s' by (subst h2) (simp add: h1)
      have x1: "kids (heap s1 el) = kids (heap s el)" "elements (heap s1 el) = elements (heap s el)"
          "classes (heap s1 el) = classes (heap s el)" "ntype (heap s1 el) = ntype (heap s el)"
          "parent (heap s1 el) = parent (heap s G)"
        unfolding h1 by (simp_all add: kids_def)
      have x: "kids ?x = kids (heap s el)" "elements ?x = elements (heap s el)"
          "classes ?x = classes (heap s el)" "ntype ?x = ntype (heap s el)"
          "parent ?x = parent (heap s G)"
        unfolding s' s2_def using x1 by (simp_all add: kids_def)
      from alts els True r h n x show ?thesis by blast
    qed
  qed
qed

lemma grown_refl: "grown G L s L s"
  by (simp add: grown_def)

lemma grown_trans:
  "grown G L s L1 s1 \<Longrightarrow> grown G L1 s1 L2 s2 \<Longrightarrow> G < next_addr s \<Longrightarrow> grown G L s L2 s2"
  unfolding grown_def by (auto; fastforce)

lemma groupBody_Inr:
  assumes "groupBody w fuel tokens G s = Inr s'"
  shows "(at_index tokens (current s) = Some Tok_GroupClose \<and> s' = s) \<or>
     (\<exists>k. fuel = Suc k \<and> at_index tokens (current s) = Some Tok_Alternator \<and>
        groupBody w k tokens G
          ((upd G (\<lambda>n. n\<lparr>alternatives := alternatives n @ [next_addr s]\<rparr>)
             (snd (createAlternative (Some G) s)))\<lparr>current := current s + 1\<rparr>) = Inr s') \<or>
     (\<exists>k nt alt r s1. fuel = Suc k \<and> at_index tokens (current s) = Some nt \<and>
        nt \<noteq> Tok_Alternator \<and> alternatives (heap s G) \<noteq> [] \<and>
        alt = last (alternatives (heap s G)) \<and> w s alt = Inr (r, s1) \<and>
        groupBody w k tokens G (upd alt (\<lambda>a. a\<lparr>elements := elements a @ [r]\<rparr>) s1) = Inr s')"
proof -
  from assms obtain nt where nt: "at_index tokens (current s) = Some nt"
    by (subst (asm) groupBody.simps) (auto split: option.splits)
  show ?thesis
  proof (cases "nt = Tok_GroupClose")
    case True
    with assms nt show ?thesis by (subst (asm) groupBody.simps) simp
  next
    case nc: False
    with assms nt obtain k where k: "fuel = Suc k"
      by (subst (asm) groupBody.simps) (auto split: nat.splits)
    show ?thesis
    proof (cases "nt = Tok_Alternator")
      case True
      with assms nt nc k show ?thesis
        by (subst (asm) groupBody.simps)
           (simp add: createAlternative_def new_node_def split_def Let_def)
    next
      case False
      with assms nt nc k show ?thesis
        by (subst (asm) groupBody.simps)
           (auto simp: at_last_def split: option.splits sum.splits if_splits)
    qed
  qed
qed

lemma groupBody_grp:
  assumes snd: "sound tokens w"
  shows "groupInv G L s \<Longrightarrow> groupBody w fuel tokens G s = Inr s' \<Longrightarrow>
         \<exists>L'. groupInv G L' s' \<and> grown G L s L' s'"
proof (induction fuel arbitrary: L s)
  case 0
  from groupBody_Inr [OF 0(2)] have "s' = s" by auto
  with 0(1) show ?case using grown_refl by blast
next
  case (Suc fuel)
  let ?h = "heap s" and ?n = "next_addr s"
  let ?alts = "alternatives (?h G)"
  from Suc.prems(1) have wf: "wellFormed L ?h ?n" and GL: "G \<notin> L" and Gn: "G < ?n"
    and ne: "?alts \<noteq> []" and aL: "set ?alts \<subseteq> L" and ad: "distinct ?alts"
    and kG: "kids (?h G) = ?alts"
    and al: "\<forall>a\<in>set ?alts. parent (?h a) = Some G \<and> ntype (?h a) = Alternative \<and>
        unheld L ?h a \<and> G < a \<and> (\<forall>e\<in>set (elements (?h a)). G < e)"
    unfolding groupInv_def by blast+
  from groupBody_Inr [OF Suc.prems(2)] show ?case
  proof (elim disjE exE conjE)
    assume "s' = s"
    with Suc.prems(1) show ?thesis using grown_refl by blast
  next
    fix k
    let ?a = "(getNodeBase (Some G) Alternative)\<lparr>elements := []\<rparr>"
    let ?s2 = "(upd G (\<lambda>n. n\<lparr>alternatives := alternatives n @ [?n]\<rparr>)
             (snd (createAlternative (Some G) s)))\<lparr>current := current s + 1\<rparr>"
    assume k: "Suc fuel = Suc k"
      and body: "groupBody w k tokens G ?s2 = Inr s'"
    let ?h1 = "?h(?n := ?a)"
    let ?h2 = "?h1(G := (?h1 G)\<lparr>alternatives := alternatives (?h1 G) @ [?n]\<rparr>)"
    have h2: "heap ?s2 = ?h2" and n2: "next_addr ?s2 = Suc ?n"
      by (simp_all add: createAlternative_def)
    have nL: "?n \<notin> L" using wfD(1) [OF wf] by blast
    have Gne: "G \<noteq> ?n" using Gn by simp
    have w1: "wellFormed L ?h1 (Suc ?n)" by (rule wf_mono [OF wf_outside [OF wf nL]]) simp
    have w2: "wellFormed L ?h2 (Suc ?n)" by (rule wf_outside [OF w1 GL])
    have ka: "kids (?h2 ?n) = []" using Gne by (simp add: kids_def getNodeBase_def)
    have w3: "wellFormed (insert ?n L) ?h2 (Suc ?n)"
      by (rule wf_insert [OF w2 nL]) (use ka Gne in \<open>auto simp: classShape_def noIntersection_def getNodeBase_def\<close>)
    have old: "?h2 a = ?h a" if "a \<in> L" for a using that nL GL by auto
    have un: "unheld (insert ?n L) ?h2 c" if "unheld L ?h c" for c
      using that ka unheld_agree [of L ?h2 ?h c] old by (simp add: unheld_insert)
    have alts2: "alternatives (?h2 G) = ?alts @ [?n]" using Gne by simp
    have "kids (?h1 G) = alternatives (?h1 G)" using kG Gne by simp
    then have kG2: "kids (?h2 G) = ?alts @ [?n]"
      using kids_only_alternatives [of "?h1 G" "alternatives (?h1 G) @ [?n]"] Gne by simp
    have ball: "parent (?h2 a) = Some G \<and> ntype (?h2 a) = Alternative \<and>
          unheld (insert ?n L) ?h2 a \<and> G < a \<and> (\<forall>e\<in>set (elements (?h2 a)). G < e)"
      if "a \<in> set (?alts @ [?n])" for a
    proof -
      from that consider "a \<in> set ?alts" | "a = ?n" by auto
      then show ?thesis
      proof cases
        case 1
        then have "a \<in> L" using aL by blast
        with 1 al un [of a] old [of a] show ?thesis by simp
      next
        case 2
        have "unheld (insert ?n L) ?h2 ?n"
          unfolding unheld_insert ka using unheld_new [OF w2 nL] by simp
        with 2 Gne Gn show ?thesis by (simp add: getNodeBase_def)
      qed
    qed
    have g2: "groupInv G (insert ?n L) ?s2"
      unfolding groupInv_def h2 n2 alts2 kG2
    proof (intro conjI)
      show "wellFormed (insert ?n L) ?h2 (Suc ?n)" by (rule w3)
      show "G \<notin> insert ?n L" using GL Gne by simp
      show "G < Suc ?n" using Gn by simp
      show "set (?alts @ [?n]) \<subseteq> insert ?n L" using aL by auto
      show "distinct (?alts @ [?n])" using ad aL nL by auto
      show "\<forall>a\<in>set (?alts @ [?n]). parent (?h2 a) = Some G \<and> ntype (?h2 a) = Alternative \<and>
          unheld (insert ?n L) ?h2 a \<and> G < a \<and> (\<forall>e\<in>set (elements (?h2 a)). G < e)"
        using ball by blast
    qed simp_all
    have gr: "grown G L s (insert ?n L) ?s2"
      unfolding grown_def h2 n2 using un Gn by auto
    from k body Suc.IH [OF g2] obtain L' where "groupInv G L' s'" "grown G (insert ?n L) ?s2 L' s'"
      by auto
    with gr Gn show ?thesis using grown_trans by blast
  next
    fix k nt alt r s1
    assume k: "Suc fuel = Suc k" and nt: "at_index tokens (current s) = Some nt"
      "nt \<noteq> Tok_Alternator"
      and alt: "alt = last ?alts" and w: "w s alt = Inr (r, s1)"
      and body: "groupBody w k tokens G (upd alt (\<lambda>a. a\<lparr>elements := elements a @ [r]\<rparr>) s1) = Inr s'"
    let ?s2 = "upd alt (\<lambda>a. a\<lparr>elements := elements a @ [r]\<rparr>) s1"
    let ?h1 = "heap s1" and ?n1 = "next_addr s1"
    let ?h2 = "?h1(alt := (?h1 alt)\<lparr>elements := elements (?h1 alt) @ [r]\<rparr>)"
    have h2: "heap ?s2 = ?h2" and n2: "next_addr ?s2 = ?n1" by simp_all
    have altin: "alt \<in> set ?alts" using ne alt by simp
    then have altL: "alt \<in> L" using aL by blast
    from snd wf altL w obtain L1 where wk: "walked tokens L s alt r L1 s1"
      unfolding sound_def by blast
    then have st: "stepped L s alt r L1 s1" by (simp add: walked_def)
    from wk nt have rt: "ntype (?h1 r) \<noteq> Alternative" and rp: "parent (?h1 r) = Some alt"
      unfolding walked_def by (auto split: if_splits)
    from st have w1: "wellFormed L1 ?h1 ?n1" and LL: "L \<subseteq> L1" and L1: "L1 \<subseteq> L \<union> {?n..<?n1}"
      and r: "?n \<le> r" "r \<in> L1" "unheld L1 ?h1 r"
      and f24: "\<forall>a<?n. a \<noteq> alt \<longrightarrow> a \<notin> set (elements (?h alt)) \<longrightarrow> ?h1 a = ?h a"
      and f7: "\<forall>a<?n. ntype (?h1 a) = ntype (?h a)"
      and f5: "\<forall>c<?n. c \<notin> set (elements (?h alt)) \<longrightarrow> unheld L ?h c \<longrightarrow> unheld L1 ?h1 c"
      unfolding stepped_def by blast+
    from st obtain es where f3: "?h1 alt = (?h alt)\<lparr>elements := es\<rparr>"
      "set es \<subseteq> set (elements (?h alt))"
      unfolding stepped_def by blast
    have n01: "?n \<le> ?n1" using wfD(1) [OF w1 r(2)] r(1) by simp
    have altn: "alt < ?n" using wfD(1) [OF wf altL] .
    have Galt: "G < alt" and age: "\<forall>e\<in>set (elements (?h alt)). G < e"
      and ualt: "unheld L ?h alt"
      using al altin by auto
    have ralt: "r \<noteq> alt" using altn r(1) by simp
    have alt1: "alt \<in> L1" using altL LL by blast
    have ty1: "ntype (?h1 alt) = Alternative" using f3(1) al altin by simp
    have w2: "wellFormed L1 ?h2 ?n1"
      by (rule wf_push [OF w1 alt1 r(2,3)]) (use rp ralt ty1 in \<open>auto simp: parentOK_def\<close>)
    have GL1: "G \<notin> L1" using L1 GL Gn by auto
    have hG: "?h2 G = ?h G"
    proof -
      have "G \<notin> set (elements (?h alt))" using age by auto
      with f24 Gn Galt show ?thesis by simp
    qed
    have other: "?h2 a = ?h a" if "a \<in> set ?alts" "a \<noteq> alt" for a
    proof -
      have "a \<in> L" using that aL by blast
      then have "a < ?n" using wfD(1) [OF wf] by blast
      moreover have "a \<notin> set (elements (?h alt))"
        using al that(1) altL elements_kids by (fastforce simp: unheld_def)
      ultimately show ?thesis using f24 that(2) by simp
    qed
    have un2: "unheld L1 ?h2 a" if "a \<in> set ?alts" for a
    proof -
      have a: "a \<in> L" using that aL by blast
      then have an: "a < ?n" using wfD(1) [OF wf] by blast
      have "a \<notin> set (elements (?h alt))"
        using al that altL elements_kids by (fastforce simp: unheld_def)
      with f5 an al that have "unheld L1 ?h1 a" by blast
      moreover have "a \<noteq> r" using an r(1) by simp
      ultimately show ?thesis by (rule unheld_push)
    qed
    have ball: "parent (?h2 a) = Some G \<and> ntype (?h2 a) = Alternative \<and>
          unheld L1 ?h2 a \<and> G < a \<and> (\<forall>e\<in>set (elements (?h2 a)). G < e)"
      if a: "a \<in> set ?alts" for a
    proof (cases "a = alt")
      case True
      have "\<forall>e\<in>set (elements (?h2 alt)). G < e"
        using f3 age r(1) Gn by auto
      with True un2 [OF a] f3(1) al a show ?thesis by simp
    next
      case False
      with other [OF a] un2 [OF a] al a show ?thesis by simp
    qed
    have g2: "groupInv G L1 ?s2"
      unfolding groupInv_def h2 n2 hG
    proof (intro conjI)
      show "wellFormed L1 ?h2 ?n1" by (rule w2)
      show "G \<notin> L1" by (rule GL1)
      show "G < ?n1" using Gn n01 by simp
      show "?alts \<noteq> []" by (rule ne)
      show "set ?alts \<subseteq> L1" using aL LL by blast
      show "distinct ?alts" by (rule ad)
      show "kids (?h G) = ?alts" by (rule kG)
      show "\<forall>a\<in>set ?alts. parent (?h2 a) = Some G \<and> ntype (?h2 a) = Alternative \<and>
          unheld L1 ?h2 a \<and> G < a \<and> (\<forall>e\<in>set (elements (?h2 a)). G < e)"
        using ball by blast
    qed
    have gr: "grown G L s L1 ?s2"
      unfolding grown_def h2 n2
    proof (intro conjI allI impI)
      show "L \<subseteq> L1" by (rule LL)
      show "L1 \<subseteq> L \<union> {?n..<?n1}" by (rule L1)
      show "?n \<le> ?n1" by (rule n01)
      show "parent (?h2 G) = parent (?h G)" using hG by simp
    next
      fix a assume "a < G"
      moreover from this have "a \<notin> set (elements (?h alt))" using age by auto
      ultimately show "?h2 a = ?h a" using f24 Gn Galt by simp
    next
      fix a assume "a < ?n"
      then show "ntype (?h2 a) = ntype (?h a)" using f7 by simp
    next
      fix c assume c: "c < G" "unheld L ?h c"
      then have "c \<notin> set (elements (?h alt))" using age by auto
      with f5 c Gn have "unheld L1 ?h1 c" by simp
      moreover have "c \<noteq> r" using c(1) Gn r(1) by simp
      ultimately show "unheld L1 ?h2 c" by (rule unheld_push)
    qed
    from k body Suc.IH [OF g2] obtain L' where "groupInv G L' s'" "grown G L1 ?s2 L' s'"
      by auto
    with gr Gn show ?thesis using grown_trans by blast
  qed
qed

lemma parseGroupOpen_Inr:
  assumes "parseGroupOpen E w fuel tokens optimize s p token = Inr (r, s')"
  shows "\<exists>G s1 s2 s3 s4. createByGroupKind E (Some p) token s = Inr (G, s1) \<and>
     heap s2 = heap s1 \<and> next_addr s2 = next_addr s1 \<and>
     groupBody w fuel tokens G s2 = Inr s3 \<and>
     ((r = G \<and> s4 = s3) \<or> getOptimizedGroup G s3 = Inr (r, s4)) \<and>
     heap s' = heap s4 \<and> next_addr s' = next_addr s4"
proof -
  from assms obtain G s1 where c: "createByGroupKind E (Some p) token s = Inr (G, s1)"
    by (auto simp: parseGroupOpen_def split: sum.splits)
  define s2 where "s2 =
      (if ntype (heap s1 G) = CapturingGroup then
         (let s' = s1\<lparr>capturingGroups := capturingGroups s1 @ [G]\<rparr>
          in case name (heap s' G) of
               None \<Rightarrow> s'
             | Some nm \<Rightarrow>
                 if nm \<noteq> [] then s'\<lparr>namedGroups := registerName nm G (namedGroups s')\<rparr>
                 else s')
       else s1)"
  have h2: "heap s2 = heap s1" "next_addr s2 = next_addr s1"
    unfolding s2_def by (auto simp: Let_def split: option.splits)
  from assms c obtain s3 where b: "groupBody w fuel tokens G s2 = Inr s3"
    unfolding parseGroupOpen_def s2_def by (auto split: sum.splits)
  from assms c b have "\<exists>s4. (if optimize then getOptimizedGroup G s3 else Inr (G, s3)) = Inr (r, s4)
      \<and> s' = s4\<lparr>current := current s4 + 1\<rparr>"
    unfolding parseGroupOpen_def s2_def by (auto split: sum.splits)
  then obtain s4 where
    o: "(if optimize then getOptimizedGroup G s3 else Inr (G, s3)) = Inr (r, s4)"
    and s': "s' = s4\<lparr>current := current s4 + 1\<rparr>" by blast
  from o have "(r = G \<and> s4 = s3) \<or> getOptimizedGroup G s3 = Inr (r, s4)"
    by (auto split: if_splits)
  with c h2 b s' show ?thesis by auto
qed

lemma stepped_group:
  assumes snd: "sound tokens w"
    and wf: "wellFormed L (heap s) (next_addr s)" and p: "p \<in> L"
    and res: "parseGroupOpen E w fuel tokens optimize s p token = Inr (r, s')"
  shows "\<exists>L'. stepped L s p r L' s' \<and> ntype (heap s' r) \<noteq> Alternative \<and>
           parent (heap s' r) = Some p"
proof -
  let ?h = "heap s" and ?n = "next_addr s"
  from parseGroupOpen_Inr [OF res] obtain G s1 s2 s3 s4 where
    c: "createByGroupKind E (Some p) token s = Inr (G, s1)"
    and h2: "heap s2 = heap s1" "next_addr s2 = next_addr s1"
    and b: "groupBody w fuel tokens G s2 = Inr s3"
    and o: "(r = G \<and> s4 = s3) \<or> getOptimizedGroup G s3 = Inr (r, s4)"
    and h': "heap s' = heap s4" "next_addr s' = next_addr s4"
    by blast
  note f = createByGroupKind_Inr [OF c]
  let ?A = "Suc G"
  let ?h2 = "heap s2"
  have GL: "G \<notin> L" and AL: "?A \<notin> L" using wfD(1) [OF wf] f(1) by fastforce+
  have old: "?h2 a = ?h a" if "a < ?n" for a using that f(1,3) h2 by simp
  have oldL: "\<forall>a\<in>L. ?h2 a = ?h a" using wfD(1) [OF wf] old by blast
  have w2: "wellFormed L ?h2 (next_addr s2)"
    by (rule wf_mono [OF wf_agree [OF wf oldL]]) (simp add: h2 f(2))
  have kA: "kids (?h2 ?A) = []" using f(8) h2 by simp
  have w2': "wellFormed (insert ?A L) ?h2 (next_addr s2)"
    by (rule wf_insert [OF w2 AL])
       (use kA f(2,9) h2 in \<open>auto simp: f(1)\<close>)
  have uA: "unheld (insert ?A L) ?h2 ?A"
    unfolding unheld_insert kA using unheld_new [OF w2 AL] by simp
  have g2: "groupInv G (insert ?A L) s2"
    unfolding groupInv_def h2
    using w2' GL uA f(2,4,5,9,10,11) h2 by (auto simp: f(1))
  from groupBody_grp [OF snd g2 b] obtain L3 where g3: "groupInv G L3 s3"
    and gr: "grown G (insert ?A L) s2 L3 s3" by blast
  let ?h3 = "heap s3" and ?n3 = "next_addr s3"
  let ?alts = "alternatives (?h3 G)"
  from g3 have w3: "wellFormed L3 ?h3 ?n3" and GL3: "G \<notin> L3" and Gn3: "G < ?n3"
    and ne: "?alts \<noteq> []" and aL: "set ?alts \<subseteq> L3" and ad: "distinct ?alts"
    and kG: "kids (?h3 G) = ?alts"
    and al: "\<forall>a\<in>set ?alts. parent (?h3 a) = Some G \<and> ntype (?h3 a) = Alternative \<and>
        unheld L3 ?h3 a \<and> G < a \<and> (\<forall>e\<in>set (elements (?h3 a)). G < e)"
    unfolding groupInv_def by blast+
  from gr have LL: "insert ?A L \<subseteq> L3" and L3: "L3 \<subseteq> insert ?A L \<union> {next_addr s2..<?n3}"
    and n23: "next_addr s2 \<le> ?n3"
    and fr: "\<forall>a<G. ?h3 a = ?h2 a" and pG: "parent (?h3 G) = parent (?h2 G)"
    and f7: "\<forall>a<next_addr s2. ntype (?h3 a) = ntype (?h2 a)"
    and f5: "\<forall>c<G. unheld (insert ?A L) ?h2 c \<longrightarrow> unheld L3 ?h3 c"
    unfolding grown_def by blast+
  have Gn: "G = ?n" by (rule f(1))
  have n2: "next_addr s2 = Suc (Suc ?n)" using f(2) h2 by simp
  have same: "?h3 a = ?h a" if "a < ?n" for a using that fr old Gn by simp
  have pG3: "parent (?h3 G) = Some p" using pG f(6) h2 by simp
  have tG3: "ntype (?h3 G) \<in> {Group, CapturingGroup, Assertion}"
    using f7 f(7) h2 n2 Gn by simp
  have un3: "unheld L3 ?h3 c" if "c < ?n" "unheld L ?h c" for c
  proof -
    have "unheld L ?h2 c" using that(2) unheld_agree [OF oldL] by simp
    then have "unheld (insert ?A L) ?h2 c" using kA by (simp add: unheld_insert)
    with f5 that(1) Gn show ?thesis by simp
  qed
  have pn: "p < ?n" using wfD(1) [OF wf p] .
  have frame_p: "\<exists>es. ?h3 p = (?h p)\<lparr>elements := es\<rparr> \<and> set es \<subseteq> set (elements (?h p))"
    using same [OF pn] by (intro exI [of _ "elements (?h p)"]) simp
  from o show ?thesis
  proof
    assume "r = G \<and> s4 = s3"
    then have r: "r = G" and s4: "s4 = s3" by simp_all
    have w4: "wellFormed (insert G L3) ?h3 ?n3"
      by (rule wf_insert [OF w3 GL3 Gn3])
         (use kG aL ad al tG3 in \<open>auto simp: parentOK_def\<close>)
    have uG: "unheld (insert G L3) ?h3 G"
      unfolding unheld_insert kG using unheld_new [OF w3 GL3] aL GL3 by auto
    have "stepped L s p G (insert G L3) s3"
      unfolding stepped_def
    proof (intro conjI allI impI)
      show "wellFormed (insert G L3) ?h3 ?n3" by (rule w4)
      show "L \<subseteq> insert G L3" using LL by blast
      show "insert G L3 \<subseteq> L \<union> {?n..<?n3}" using L3 Gn n2 n23 Gn3 by auto
      show "?n \<le> G" using Gn by simp
      show "unheld (insert G L3) ?h3 G" by (rule uG)
      show "ntype (?h3 G) \<noteq> CharacterClassIntersection" using tG3 by auto
      show "\<exists>es. ?h3 p = (?h p)\<lparr>elements := es\<rparr> \<and> set es \<subseteq> set (elements (?h p))"
        by (rule frame_p)
      show "?h3 p = ?h p" using same [OF pn] .
    next
      fix a assume "a < ?n" then show "?h3 a = ?h a" by (rule same)
    next
      fix a assume "a < ?n" then show "ntype (?h3 a) = ntype (?h a)" using same by simp
    next
      fix c assume c: "c < ?n" "unheld L ?h c"
      have "c \<notin> set ?alts" using al c(1) Gn by auto
      with un3 [OF c] kG show "unheld (insert G L3) ?h3 c" by (simp add: unheld_insert)
    qed simp
    moreover have "ntype (?h3 G) \<noteq> Alternative" using tG3 by auto
    ultimately show ?thesis
      using pG3 stepped_cong [OF refl refl h'[unfolded s4]] unfolding r h' s4 by blast
  next
    assume "getOptimizedGroup G s3 = Inr (r, s4)"
    from getOptimizedGroup_cases [OF this] show ?thesis
    proof (elim disjE exE conjE)
      assume r: "r = G" and s4: "s4 = s3"
      have w4: "wellFormed (insert G L3) ?h3 ?n3"
        by (rule wf_insert [OF w3 GL3 Gn3])
           (use kG aL ad al tG3 in \<open>auto simp: parentOK_def\<close>)
      have uG: "unheld (insert G L3) ?h3 G"
        unfolding unheld_insert kG using unheld_new [OF w3 GL3] aL GL3 by auto
      have "stepped L s p G (insert G L3) s3"
        unfolding stepped_def
      proof (intro conjI allI impI)
        show "wellFormed (insert G L3) ?h3 ?n3" by (rule w4)
        show "L \<subseteq> insert G L3" using LL by blast
        show "insert G L3 \<subseteq> L \<union> {?n..<?n3}" using L3 Gn n2 n23 Gn3 by auto
        show "?n \<le> G" using Gn by simp
        show "unheld (insert G L3) ?h3 G" by (rule uG)
        show "ntype (?h3 G) \<noteq> CharacterClassIntersection" using tG3 by auto
        show "\<exists>es. ?h3 p = (?h p)\<lparr>elements := es\<rparr> \<and> set es \<subseteq> set (elements (?h p))"
          by (rule frame_p)
        show "?h3 p = ?h p" using same [OF pn] .
      next
        fix a assume "a < ?n" then show "?h3 a = ?h a" by (rule same)
      next
        fix a assume "a < ?n" then show "ntype (?h3 a) = ntype (?h a)" using same by simp
      next
        fix c assume c: "c < ?n" "unheld L ?h c"
        have "c \<notin> set ?alts" using al c(1) Gn by auto
        with un3 [OF c] kG show "unheld (insert G L3) ?h3 c" by (simp add: unheld_insert)
      qed simp
      moreover have "ntype (?h3 G) \<noteq> Alternative" using tG3 by auto
      ultimately show ?thesis
        using pG3 stepped_cong [OF refl refl h'[unfolded s4]] unfolding r h' s4 by blast
    next
      fix A el x
      assume alts: "?alts = [A]" and els: "elements (?h3 A) = [el]"
        and tel: "ntype (?h3 el) = Group" and r: "r = el"
        and h4: "heap s4 = ?h3(el := x)" and n4: "next_addr s4 = ?n3"
        and x: "kids x = kids (?h3 el)" "elements x = elements (?h3 el)"
          "classes x = classes (?h3 el)" "ntype x = ntype (?h3 el)"
          "parent x = parent (?h3 G)"
      let ?h4 = "?h3(el := x)"
      have AL3: "A \<in> L3" and GA: "G < A" and uA3: "unheld L3 ?h3 A"
        and age: "G < el"
        using aL al alts els by auto
      have elk: "el \<in> set (kids (?h3 A))" using els elements_kids [of "?h3 A"] by auto
      have elL3: "el \<in> L3" using wfD(2) [OF w3 AL3 elk] .
      have elA: "el \<noteq> A" using wfD(7) [OF w3 AL3] elk by metis
      let ?L' = "L3 - {A}"
      have w5: "wellFormed ?L' ?h3 ?n3" by (rule wf_remove [OF w3 uA3])
      have u5: "unheld ?L' ?h3 el" by (rule unheld_remove [OF w3 AL3 elk])
      have w6: "wellFormed ?L' ?h4 ?n3"
        by (rule wf_fields [OF w5 x(1-4)]) (use u5 in simp)
      have u6: "unheld ?L' ?h4 c" if "unheld ?L' ?h3 c" for c
        using that unheld_fields [where h = "heap s3" and a = el and x = x, OF x(1)] by simp
      have AnL: "A \<notin> L" using wfD(1) [OF wf] GA Gn by fastforce
      have "stepped L s p el ?L' s4"
        unfolding stepped_def h4 n4
      proof (intro conjI allI impI)
        show "wellFormed ?L' ?h4 ?n3" by (rule w6)
        show "L \<subseteq> ?L'" using LL AnL by blast
        show "?L' \<subseteq> L \<union> {?n..<?n3}" using L3 Gn n2 n23 by auto
        show "?n \<le> el" using age Gn by simp
        show "el \<in> ?L'" using elL3 elA by simp
        show "unheld ?L' ?h4 el" by (rule u6 [OF u5])
        show "ntype (?h4 el) \<noteq> CharacterClassIntersection" using x(4) tel by simp
        show "\<exists>es. ?h4 p = (?h p)\<lparr>elements := es\<rparr> \<and> set es \<subseteq> set (elements (?h p))"
          using frame_p pn age Gn by simp
        show "?h4 p = ?h p" using same [OF pn] pn age Gn by simp
      next
        fix a assume "a < ?n" then show "?h4 a = ?h a" using same age Gn by simp
      next
        fix a assume "a < ?n" then show "ntype (?h4 a) = ntype (?h a)" using same age Gn by simp
      next
        fix c assume c: "c < ?n" "unheld L ?h c"
        from un3 [OF c] have "unheld ?L' ?h3 c" by (rule unheld_subset) blast
        then show "unheld ?L' ?h4 c" by (rule u6)
      qed
      moreover have "ntype (?h4 el) \<noteq> Alternative" "parent (?h4 el) = Some p"
        using x(4,5) tel pG3 by simp_all
      ultimately show ?thesis
        using stepped_cong [OF refl refl h'] unfolding r h' h4 by blast
    qed
  qed
qed

lemma kids_only_classes: "kids x = classes x \<Longrightarrow> kids (x\<lparr>classes := ys\<rparr>) = ys"
proof -
  assume a: "kids x = classes x"
  let ?pre = "elements x @ alternatives x"
  let ?rest = "(case pattern x of None \<Rightarrow> [] | Some a \<Rightarrow> [a]) @
     (case flags x of None \<Rightarrow> [] | Some a \<Rightarrow> [a]) @
     (case element x of None \<Rightarrow> [] | Some a \<Rightarrow> [a]) @
     (case rmin x of None \<Rightarrow> [] | Some a \<Rightarrow> [a]) @
     (case rmax x of None \<Rightarrow> [] | Some a \<Rightarrow> [a])"
  from a have "length (?pre @ classes x @ ?rest) = length (classes x)"
    by (simp add: kids_def)
  then have "?pre = []" "?rest = []" by auto
  then show ?thesis by (simp add: kids_def)
qed

lemma classBody_Inr:
  assumes "classBody w fuel tokens I s = Inr s'"
  shows "(at_index tokens (current s) = Some Tok_CharacterClassClose \<and> s' = s) \<or>
     (\<exists>k. fuel = Suc k \<and> at_index tokens (current s) = Some Tok_CharacterClassIntersector \<and>
        classBody w k tokens I
          ((upd I (\<lambda>n. n\<lparr>classes := classes n @ [next_addr s]\<rparr>)
             (snd (createCharacterClassBase (Some I) False s)))\<lparr>current := current s + 1\<rparr>) = Inr s') \<or>
     (\<exists>k nt cc r s1. fuel = Suc k \<and> at_index tokens (current s) = Some nt \<and>
        classes (heap s I) \<noteq> [] \<and>
        cc = last (classes (heap s I)) \<and> w s cc = Inr (r, s1) \<and>
        classBody w k tokens I (upd cc (\<lambda>a. a\<lparr>elements := elements a @ [r]\<rparr>) s1) = Inr s')"
proof -
  from assms obtain nt where nt: "at_index tokens (current s) = Some nt"
    by (subst (asm) classBody.simps) (auto split: option.splits)
  show ?thesis
  proof (cases "nt = Tok_CharacterClassClose")
    case True
    with assms nt show ?thesis by (subst (asm) classBody.simps) simp
  next
    case nc: False
    with assms nt obtain k where k: "fuel = Suc k"
      by (subst (asm) classBody.simps) (auto split: nat.splits)
    show ?thesis
    proof (cases "nt = Tok_CharacterClassIntersector")
      case True
      with assms nt nc k show ?thesis
        by (subst (asm) classBody.simps)
           (simp add: createCharacterClassBase_def new_node_def split_def Let_def)
    next
      case False
      with assms nt nc k show ?thesis
        by (subst (asm) classBody.simps)
           (auto simp: at_last_def split: option.splits sum.splits if_splits)
    qed
  qed
qed

lemma classBody_cls:
  assumes snd: "sound tokens w"
  shows "classInv I L s \<Longrightarrow> bases I s \<Longrightarrow> classBody w fuel tokens I s = Inr s' \<Longrightarrow>
         \<exists>L'. classInv I L' s' \<and> bases I s' \<and> grown I L s L' s'"
proof (induction fuel arbitrary: L s)
  case 0
  from classBody_Inr [OF 0(3)] have "s' = s" by auto
  with 0(1,2) show ?case using grown_refl by blast
next
  case (Suc fuel)
  let ?h = "heap s" and ?n = "next_addr s"
  let ?cs = "classes (?h I)"
  from Suc.prems(1) have wf: "wellFormed L ?h ?n" and IL: "I \<notin> L" and In: "I < ?n"
    and tI: "ntype (?h I) = CharacterClassIntersection"
    and ne: "?cs \<noteq> []" and cL: "set ?cs \<subseteq> L" and cd: "distinct ?cs"
    and kI: "kids (?h I) = ?cs"
    and cl: "\<forall>c\<in>set ?cs. parent (?h c) = Some I \<and> ntype (?h c) = CharacterClass \<and>
        unheld L ?h c \<and> I < c"
    unfolding classInv_def by blast+
  from Suc.prems(2) have bs: "\<forall>c\<in>set ?cs. noIntersection ?h c \<and>
      (\<forall>e\<in>set (elements (?h c)). I < e)"
    unfolding bases_def by blast
  from classBody_Inr [OF Suc.prems(3)] show ?case
  proof (elim disjE exE conjE)
    assume "s' = s"
    with Suc.prems(1,2) show ?thesis using grown_refl by blast
  next
    fix k
    let ?a = "(getNodeBase (Some I) CharacterClass)\<lparr>negate := Some False, elements := []\<rparr>"
    let ?s2 = "(upd I (\<lambda>n. n\<lparr>classes := classes n @ [?n]\<rparr>)
             (snd (createCharacterClassBase (Some I) False s)))\<lparr>current := current s + 1\<rparr>"
    assume k: "Suc fuel = Suc k"
      and body: "classBody w k tokens I ?s2 = Inr s'"
    let ?h1 = "?h(?n := ?a)"
    let ?h2 = "?h1(I := (?h1 I)\<lparr>classes := classes (?h1 I) @ [?n]\<rparr>)"
    have h2: "heap ?s2 = ?h2" and n2: "next_addr ?s2 = Suc ?n"
      by (simp_all add: createCharacterClassBase_def)
    have nL: "?n \<notin> L" using wfD(1) [OF wf] by blast
    have Ine: "I \<noteq> ?n" using In by simp
    have w1: "wellFormed L ?h1 (Suc ?n)" by (rule wf_mono [OF wf_outside [OF wf nL]]) simp
    have w2: "wellFormed L ?h2 (Suc ?n)" by (rule wf_outside [OF w1 IL])
    have ka: "kids (?h2 ?n) = []" using Ine by (simp add: kids_def getNodeBase_def)
    have ea: "elements (?h2 ?n) = []" using Ine by simp
    have w3: "wellFormed (insert ?n L) ?h2 (Suc ?n)"
      by (rule wf_insert [OF w2 nL])
         (use ka ea in \<open>auto simp: classShape_def noIntersection_def\<close>)
    have old: "?h2 a = ?h a" if "a \<in> L" for a using that nL IL by auto
    have un: "unheld (insert ?n L) ?h2 c" if "unheld L ?h c" for c
      using that ka unheld_agree [of L ?h2 ?h c] old by (simp add: unheld_insert)
    have cs2: "classes (?h2 I) = ?cs @ [?n]" using Ine by simp
    have tI2: "ntype (?h2 I) = CharacterClassIntersection" using tI Ine by simp
    have "kids (?h1 I) = classes (?h1 I)" using kI Ine by simp
    then have kI2: "kids (?h2 I) = ?cs @ [?n]"
      using kids_only_classes [of "?h1 I" "classes (?h1 I) @ [?n]"] Ine by simp
    have ty2: "ntype (?h2 e) = ntype (?h e)" if "e \<in> L" for e using old [OF that] by simp
    have ball: "parent (?h2 c) = Some I \<and> ntype (?h2 c) = CharacterClass \<and>
          unheld (insert ?n L) ?h2 c \<and> I < c"
      and ball2: "noIntersection ?h2 c \<and> (\<forall>e\<in>set (elements (?h2 c)). I < e)"
      if "c \<in> set (?cs @ [?n])" for c
    proof -
      from that consider "c \<in> set ?cs" | "c = ?n" by auto
      then show "parent (?h2 c) = Some I \<and> ntype (?h2 c) = CharacterClass \<and>
          unheld (insert ?n L) ?h2 c \<and> I < c"
      proof cases
        case 1
        then have "c \<in> L" using cL by blast
        with 1 cl un [of c] old [of c] show ?thesis by simp
      next
        case 2
        have "unheld (insert ?n L) ?h2 ?n"
          unfolding unheld_insert ka using unheld_new [OF w2 nL] by simp
        with 2 Ine In show ?thesis by (simp add: getNodeBase_def)
      qed
      from that consider "c \<in> set ?cs" | "c = ?n" by auto
      then show "noIntersection ?h2 c \<and> (\<forall>e\<in>set (elements (?h2 c)). I < e)"
      proof cases
        case 1
        then have c: "c \<in> L" using cL by blast
        have "e \<in> L" if "e \<in> set (elements (?h c))" for e
          using wfD(2) [OF wf c] that elements_kids by blast
        with 1 bs old [OF c] ty2 show ?thesis by (auto simp: noIntersection_def)
      next
        case 2
        with ea show ?thesis by (simp add: noIntersection_def)
      qed
    qed
    have g2: "classInv I (insert ?n L) ?s2"
      unfolding classInv_def h2 n2 cs2 kI2
    proof (intro conjI)
      show "wellFormed (insert ?n L) ?h2 (Suc ?n)" by (rule w3)
      show "I \<notin> insert ?n L" using IL Ine by simp
      show "I < Suc ?n" using In by simp
      show "ntype (?h2 I) = CharacterClassIntersection" by (rule tI2)
      show "set (?cs @ [?n]) \<subseteq> insert ?n L" using cL by auto
      show "distinct (?cs @ [?n])" using cd cL nL by auto
      show "\<forall>c\<in>set (?cs @ [?n]). parent (?h2 c) = Some I \<and> ntype (?h2 c) = CharacterClass \<and>
          unheld (insert ?n L) ?h2 c \<and> I < c"
        using ball by blast
    qed simp_all
    have b2: "bases I ?s2"
      unfolding bases_def h2 cs2 using ball2 by blast
    have gr: "grown I L s (insert ?n L) ?s2"
      unfolding grown_def h2 n2 using un In by auto
    from k body Suc.IH [OF g2 b2] obtain L' where "classInv I L' s'" "bases I s'"
      "grown I (insert ?n L) ?s2 L' s'"
      by auto
    with gr In show ?thesis using grown_trans by blast
  next
    fix k nt cc r s1
    assume k: "Suc fuel = Suc k"
      and cc: "cc = last ?cs" and w: "w s cc = Inr (r, s1)"
      and body: "classBody w k tokens I (upd cc (\<lambda>a. a\<lparr>elements := elements a @ [r]\<rparr>) s1) = Inr s'"
    let ?s2 = "upd cc (\<lambda>a. a\<lparr>elements := elements a @ [r]\<rparr>) s1"
    let ?h1 = "heap s1" and ?n1 = "next_addr s1"
    let ?h2 = "?h1(cc := (?h1 cc)\<lparr>elements := elements (?h1 cc) @ [r]\<rparr>)"
    have h2: "heap ?s2 = ?h2" and n2: "next_addr ?s2 = ?n1" by simp_all
    have ccin: "cc \<in> set ?cs" using ne cc by simp
    then have ccL: "cc \<in> L" using cL by blast
    from snd wf ccL w obtain L1 where wk: "walked tokens L s cc r L1 s1"
      unfolding sound_def by blast
    then have st: "stepped L s cc r L1 s1" by (simp add: walked_def)
    from st have w1: "wellFormed L1 ?h1 ?n1" and LL: "L \<subseteq> L1" and L1: "L1 \<subseteq> L \<union> {?n..<?n1}"
      and r: "?n \<le> r" "r \<in> L1" "unheld L1 ?h1 r"
      and rI: "ntype (?h1 r) \<noteq> CharacterClassIntersection"
      and f24: "\<forall>a<?n. a \<noteq> cc \<longrightarrow> a \<notin> set (elements (?h cc)) \<longrightarrow> ?h1 a = ?h a"
      and f7: "\<forall>a<?n. ntype (?h1 a) = ntype (?h a)"
      and f5: "\<forall>c<?n. c \<notin> set (elements (?h cc)) \<longrightarrow> unheld L ?h c \<longrightarrow> unheld L1 ?h1 c"
      unfolding stepped_def by blast+
    from st obtain es where f3: "?h1 cc = (?h cc)\<lparr>elements := es\<rparr>"
      "set es \<subseteq> set (elements (?h cc))"
      unfolding stepped_def by blast
    have n01: "?n \<le> ?n1" using wfD(1) [OF w1 r(2)] r(1) by simp
    have ccn: "cc < ?n" using wfD(1) [OF wf ccL] .
    have Icc: "I < cc" and age: "\<forall>e\<in>set (elements (?h cc)). I < e"
      and ucc: "unheld L ?h cc" and nocc: "noIntersection ?h cc"
      using cl bs ccin by auto
    have rcc: "r \<noteq> cc" using ccn r(1) by simp
    have cc1: "cc \<in> L1" using ccL LL by blast
    have ty1: "ntype (?h1 cc) = CharacterClass" using f3(1) cl ccin by simp
    have elL: "e \<in> L \<and> e < ?n" if "c \<in> set ?cs" "e \<in> set (elements (?h c))" for c e
    proof -
      have "c \<in> L" using that(1) cL by blast
      then have "e \<in> L" using wfD(2) [OF wf] that(2) elements_kids by blast
      then show ?thesis using wfD(1) [OF wf] by blast
    qed
    have no1: "noIntersection ?h1 cc"
      unfolding noIntersection_def
    proof
      fix e assume "e \<in> set (elements (?h1 cc))"
      then have e: "e \<in> set (elements (?h cc))" using f3 by auto
      then have "ntype (?h1 e) = ntype (?h e)" using elL [OF ccin] f7 by blast
      with nocc e show "ntype (?h1 e) \<noteq> CharacterClassIntersection"
        by (simp add: noIntersection_def)
    qed
    have pok: "parentOK ?h1 cc r"
      using wk ty1 unfolding walked_def parentOK_def by (auto split: if_splits)
    have w2: "wellFormed L1 ?h2 ?n1"
      by (rule wf_push [OF w1 cc1 r(2,3) pok rcc]) (use no1 rI in simp)
    have IL1: "I \<notin> L1" using L1 IL In by auto
    have hI: "?h2 I = ?h I"
    proof -
      have "I \<notin> set (elements (?h cc))" using age by auto
      with f24 In Icc show ?thesis by simp
    qed
    have notin: "a \<notin> set (elements (?h cc))" if "a \<in> set ?cs" for a
      using cl that ccL elements_kids by (fastforce simp: unheld_def)
    have other: "?h2 a = ?h a" if "a \<in> set ?cs" "a \<noteq> cc" for a
    proof -
      have "a < ?n" using that(1) cL wfD(1) [OF wf] by blast
      with notin [OF that(1)] f24 that(2) show ?thesis by simp
    qed
    have un2: "unheld L1 ?h2 a" if "a \<in> set ?cs" for a
    proof -
      have an: "a < ?n" using that cL wfD(1) [OF wf] by blast
      with f5 notin [OF that] cl that have "unheld L1 ?h1 a" by blast
      moreover have "a \<noteq> r" using an r(1) by simp
      ultimately show ?thesis by (rule unheld_push)
    qed
    have t2: "ntype (?h2 e) = ntype (?h e)" if "e < ?n" for e using f7 that by simp
    have ball: "parent (?h2 a) = Some I \<and> ntype (?h2 a) = CharacterClass \<and>
          unheld L1 ?h2 a \<and> I < a"
      if a: "a \<in> set ?cs" for a
    proof (cases "a = cc")
      case True
      with un2 [OF a] f3(1) cl a show ?thesis by simp
    next
      case False
      with other [OF a] un2 [OF a] cl a show ?thesis by simp
    qed
    have ball2: "noIntersection ?h2 a \<and> (\<forall>e\<in>set (elements (?h2 a)). I < e)"
      if a: "a \<in> set ?cs" for a
    proof (cases "a = cc")
      case True
      have "\<forall>e\<in>set (elements (?h2 cc)). I < e"
        using f3 age r(1) In by auto
      moreover have "noIntersection ?h2 cc"
        unfolding noIntersection_def
      proof
        fix e assume "e \<in> set (elements (?h2 cc))"
        then consider "e \<in> set (elements (?h1 cc))" | "e = r" by auto
        then show "ntype (?h2 e) \<noteq> CharacterClassIntersection"
        proof cases
          case 1
          with no1 ty1 show ?thesis by (auto simp: noIntersection_def)
        next
          case 2
          with rI rcc show ?thesis by simp
        qed
      qed
      ultimately show ?thesis using True by simp
    next
      case False
      have "ntype (?h2 e) \<noteq> CharacterClassIntersection" if "e \<in> set (elements (?h a))" for e
        using elL [OF a that] t2 [of e] bs a that by (simp add: noIntersection_def)
      with other [OF a False] bs a show ?thesis by (simp add: noIntersection_def)
    qed
    have g2: "classInv I L1 ?s2"
      unfolding classInv_def h2 n2 hI
    proof (intro conjI)
      show "wellFormed L1 ?h2 ?n1" by (rule w2)
      show "I \<notin> L1" by (rule IL1)
      show "I < ?n1" using In n01 by simp
      show "ntype (?h I) = CharacterClassIntersection" by (rule tI)
      show "?cs \<noteq> []" by (rule ne)
      show "set ?cs \<subseteq> L1" using cL LL by blast
      show "distinct ?cs" by (rule cd)
      show "kids (?h I) = ?cs" by (rule kI)
      show "\<forall>c\<in>set ?cs. parent (?h2 c) = Some I \<and> ntype (?h2 c) = CharacterClass \<and>
          unheld L1 ?h2 c \<and> I < c"
        using ball by blast
    qed
    have b2: "bases I ?s2"
      unfolding bases_def h2 hI using ball2 by blast
    have gr: "grown I L s L1 ?s2"
      unfolding grown_def h2 n2
    proof (intro conjI allI impI)
      show "L \<subseteq> L1" by (rule LL)
      show "L1 \<subseteq> L \<union> {?n..<?n1}" by (rule L1)
      show "?n \<le> ?n1" by (rule n01)
      show "parent (?h2 I) = parent (?h I)" using hI by simp
    next
      fix a assume "a < I"
      moreover from this have "a \<notin> set (elements (?h cc))" using age by auto
      ultimately show "?h2 a = ?h a" using f24 In Icc by simp
    next
      fix a assume "a < ?n"
      then show "ntype (?h2 a) = ntype (?h a)" using f7 by simp
    next
      fix c assume c: "c < I" "unheld L ?h c"
      then have "c \<notin> set (elements (?h cc))" using age by auto
      with f5 c In have "unheld L1 ?h1 c" by simp
      moreover have "c \<noteq> r" using c(1) In r(1) by simp
      ultimately show "unheld L1 ?h2 c" by (rule unheld_push)
    qed
    from k body Suc.IH [OF g2 b2] obtain L' where "classInv I L' s'" "bases I s'"
      "grown I L1 ?s2 L' s'"
      by auto
    with gr In show ?thesis using grown_trans by blast
  qed
qed

lemma shrunk_refl: "shrunk I L s L s"
  by (simp add: shrunk_def)

lemma shrunk_trans:
  "shrunk I L s L1 s1 \<Longrightarrow> shrunk I L1 s1 L2 s2 \<Longrightarrow> shrunk I L s L2 s2"
  unfolding shrunk_def by (auto; fastforce)

lemma unheld_kids: "\<forall>a\<in>L. kids (h' a) = kids (h a) \<Longrightarrow> unheld L h' c = unheld L h c"
  by (simp add: unheld_def)

lemma optimizeClass_cases:
  "optimizeClass I i s = s \<or>
   (\<exists>cc fc x. i < length (classes (heap s I)) \<and> cc = classes (heap s I) ! i \<and>
      elements (heap s cc) = [fc] \<and> ntype (heap s fc) = CharacterClass \<and>
      heap (optimizeClass I i s) =
        ((heap s)(I := (heap s I)\<lparr>classes := (classes (heap s I))[i := fc]\<rparr>))(fc := x) \<and>
      next_addr (optimizeClass I i s) = next_addr s \<and>
      (fc \<noteq> I \<longrightarrow> kids x = kids (heap s fc) \<and> elements x = elements (heap s fc) \<and>
        classes x = classes (heap s fc) \<and> ntype x = ntype (heap s fc) \<and>
        parent x = Some I))"
proof (cases "at_index (classes (heap s I)) i")
  case None
  then show ?thesis by (simp add: optimizeClass_def)
next
  case (Some cc)
  then have i: "i < length (classes (heap s I))" and cc: "cc = classes (heap s I) ! i"
    by (auto simp: at_index_def split: if_splits)
  show ?thesis
  proof (cases "at_index (elements (heap s cc)) 0")
    case None
    with Some show ?thesis by (simp add: optimizeClass_def)
  next
    case fc: (Some fc)
    show ?thesis
    proof (cases "length (elements (heap s cc)) = 1 \<and> ntype (heap s fc) = CharacterClass")
      case False
      with Some fc show ?thesis by (auto simp: optimizeClass_def)
    next
      case True
      with fc have el: "elements (heap s cc) = [fc]"
        by (cases "elements (heap s cc)") (auto simp: at_index_def)
      define s1 where "s1 = upd I (\<lambda>n. n\<lparr>classes := (classes n)[i := fc]\<rparr>) s"
      define s2 where "s2 = upd fc (\<lambda>n. n\<lparr>parent := Some I\<rparr>) s1"
      define s3 where "s3 = upd fc (\<lambda>n. n\<lparr>negate := Some (negate (heap s2 cc) \<noteq> negate n)\<rparr>) s2"
      have o: "optimizeClass I i s = s3"
        using True Some fc unfolding s3_def s2_def s1_def
        by (simp add: optimizeClass_def Let_def)
      let ?h1 = "(heap s)(I := (heap s I)\<lparr>classes := (classes (heap s I))[i := fc]\<rparr>)"
      define x where "x = (?h1 fc)\<lparr>parent := Some I,
          negate := Some (negate (heap s2 cc) \<noteq> negate ((?h1 fc)\<lparr>parent := Some I\<rparr>))\<rparr>"
      have h3: "heap s3 = ?h1(fc := x)"
        unfolding s3_def s2_def s1_def x_def by (simp add: fun_eq_iff)
      have n3: "next_addr s3 = next_addr s" unfolding s3_def s2_def s1_def by simp
      have "kids x = kids (heap s fc) \<and> elements x = elements (heap s fc) \<and>
        classes x = classes (heap s fc) \<and> ntype x = ntype (heap s fc) \<and>
        parent x = Some I" if "fc \<noteq> I"
        using that unfolding x_def by (simp add: kids_def)
      with i cc el True h3 n3 show ?thesis unfolding o by blast
    qed
  qed
qed

lemma optimizeClass_cls:
  assumes c: "classInv I L s" and y: "young I i s"
  shows "\<exists>L'. classInv I L' (optimizeClass I i s) \<and> shrunk I L s L' (optimizeClass I i s) \<and>
           young I (Suc i) (optimizeClass I i s)"
proof -
  let ?h = "heap s" and ?n = "next_addr s"
  let ?cs = "classes (?h I)"
  let ?s' = "optimizeClass I i s"
  from c have wf: "wellFormed L ?h ?n" and IL: "I \<notin> L" and In: "I < ?n"
    and tI: "ntype (?h I) = CharacterClassIntersection"
    and ne: "?cs \<noteq> []" and cL: "set ?cs \<subseteq> L" and cd: "distinct ?cs"
    and kI: "kids (?h I) = ?cs"
    and cl: "\<forall>c\<in>set ?cs. parent (?h c) = Some I \<and> ntype (?h c) = CharacterClass \<and>
        unheld L ?h c \<and> I < c"
    unfolding classInv_def by blast+
  from optimizeClass_cases [of I i s] show ?thesis
  proof (elim disjE exE conjE)
    assume "?s' = s"
    moreover have "young I (Suc i) s" using y unfolding young_def by (auto dest: Suc_leD)
    ultimately show ?thesis using c shrunk_refl by auto
  next
    fix cc fc x
    assume i: "i < length ?cs" and cc: "cc = ?cs ! i" and el: "elements (?h cc) = [fc]"
      and tf: "ntype (?h fc) = CharacterClass"
      and h': "heap ?s' = (?h(I := (?h I)\<lparr>classes := ?cs[i := fc]\<rparr>))(fc := x)"
      and n': "next_addr ?s' = ?n"
      and x0: "fc \<noteq> I \<longrightarrow> kids x = kids (?h fc) \<and> elements x = elements (?h fc) \<and>
        classes x = classes (?h fc) \<and> ntype x = ntype (?h fc) \<and> parent x = Some I"
    let ?h1 = "?h(I := (?h I)\<lparr>classes := ?cs[i := fc]\<rparr>)"
    let ?h3 = "?h1(fc := x)"
    let ?L' = "L - {cc}"
    have ccin: "cc \<in> set ?cs" using i cc by simp
    then have ccL: "cc \<in> L" and Icc: "I < cc" and ucc: "unheld L ?h cc" using cL cl by auto
    have "I < fc" using y i cc el unfolding young_def by auto
    then have fI: "fc \<noteq> I" by simp
    with x0 have x: "kids x = kids (?h fc)" "elements x = elements (?h fc)"
      "classes x = classes (?h fc)" "ntype x = ntype (?h fc)" "parent x = Some I"
      by simp_all
    have fk: "fc \<in> set (kids (?h cc))" using el elements_kids [of "?h cc"] by auto
    have fL: "fc \<in> L" using wfD(2) [OF wf ccL fk] .
    have fcc: "fc \<noteq> cc" using wfD(7) [OF wf ccL] fk by metis
    have fcs: "fc \<notin> set ?cs" using cl ccL fk by (auto simp: unheld_def)
    have w0: "wellFormed ?L' ?h ?n" by (rule wf_remove [OF wf ucc])
    have u0: "unheld ?L' ?h fc" by (rule unheld_remove [OF wf ccL fk])
    have IL': "I \<notin> ?L'" using IL by simp
    have w1: "wellFormed ?L' ?h1 ?n" by (rule wf_outside [OF w0 IL'])
    have ag1: "\<forall>b\<in>?L'. ?h1 b = ?h b" using IL by auto
    have u1: "unheld ?L' ?h1 fc"
      unfolding unheld_agree [of ?L' ?h1 ?h, OF ag1] by (rule u0)
    have x1: "kids x = kids (?h1 fc)" "elements x = elements (?h1 fc)"
      "classes x = classes (?h1 fc)" "ntype x = ntype (?h1 fc)"
      using x fI by simp_all
    have w3: "wellFormed ?L' ?h3 ?n"
      by (rule wf_fields [OF w1 x1]) (rule disjI2, rule u1)
    have kd: "\<forall>a\<in>?L'. kids (?h3 a) = kids (?h a)" using x(1) IL by auto
    have un3: "unheld ?L' ?h3 c" if "unheld L ?h c" for c
    proof -
      from that have "unheld ?L' ?h c" by (rule unheld_subset) blast
      then show ?thesis unfolding unheld_kids [of ?L' ?h3 ?h, OF kd] .
    qed
    have uf3: "unheld ?L' ?h3 fc"
      unfolding unheld_kids [of ?L' ?h3 ?h, OF kd] by (rule u0)
    have cs3: "classes (?h3 I) = ?cs[i := fc]" using fI by simp
    have set3: "set (?cs[i := fc]) = insert fc (set ?cs - {cc})"
      using set_update_distinct [OF cd i] cc by simp
    have ty3: "ntype (?h3 a) = ntype (?h a)" for a using x(4) by simp
    have "kids (?h1 I) = ?cs[i := fc]"
      using kids_only_classes [OF kI, of "?cs[i := fc]"] by simp
    then have kI3: "kids (?h3 I) = ?cs[i := fc]" using fI by simp
    have oth: "?h3 c = ?h c" if "c \<in> set ?cs" for c
      using that fcs cl by auto
    have ball: "parent (?h3 c) = Some I \<and> ntype (?h3 c) = CharacterClass \<and>
          unheld ?L' ?h3 c \<and> I < c"
      if "c \<in> insert fc (set ?cs - {cc})" for c
    proof (cases "c = fc")
      case True
      with x(4,5) tf uf3 \<open>I < fc\<close> show ?thesis by simp
    next
      case False
      with that have cin: "c \<in> set ?cs" by simp
      with cl un3 [of c] oth [OF cin] show ?thesis by simp
    qed
    have c3: "classInv I ?L' ?s'"
      unfolding classInv_def h' n' cs3 kI3 set3
    proof (intro conjI)
      show "wellFormed ?L' ?h3 ?n" by (rule w3)
      show "I \<notin> ?L'" by (rule IL')
      show "I < ?n" by (rule In)
      show "ntype (?h3 I) = CharacterClassIntersection" using tI ty3 by simp
      show "?cs[i := fc] \<noteq> []" using ne by simp
      show "insert fc (set ?cs - {cc}) \<subseteq> ?L'" using cL fL fcc by auto
      show "distinct (?cs[i := fc])" using cd fcs by (simp add: distinct_list_update)
      show "\<forall>c\<in>insert fc (set ?cs - {cc}). parent (?h3 c) = Some I \<and>
          ntype (?h3 c) = CharacterClass \<and> unheld ?L' ?h3 c \<and> I < c"
        using ball by blast
    qed simp
    have sh: "shrunk I L s ?L' ?s'"
      unfolding shrunk_def h' n'
    proof (intro conjI allI impI ballI)
      show "?L' \<subseteq> L" by blast
      show "parent (?h3 I) = parent (?h I)" using fI by simp
      show "length (classes (?h3 I)) = length ?cs" using fI by simp
    next
      fix a assume "a \<in> L" "a < I" then show "a \<in> ?L'" using Icc by auto
    next
      fix a assume "a < I" then show "?h3 a = ?h a" using \<open>I < fc\<close> by simp
    next
      fix a show "ntype (?h3 a) = ntype (?h a)" by (rule ty3)
    next
      fix c assume "c < I" "unheld L ?h c" then show "unheld ?L' ?h3 c" using un3 by blast
    qed simp
    have y3: "young I (Suc i) ?s'"
      unfolding young_def h' cs3
    proof (intro allI impI)
      fix j assume j: "Suc i \<le> j" "j < length (?cs[i := fc])"
      then have ji: "j \<noteq> i" and jl: "j < length ?cs" by simp_all
      then have cj: "?cs[i := fc] ! j = ?cs ! j" by simp
      have "?cs ! j \<in> set ?cs" using jl by simp
      from oth [OF this] have "elements (?h3 (?cs ! j)) = elements (?h (?cs ! j))" by simp
      moreover have "\<forall>e\<in>set (elements (?h (?cs ! j))). I < e"
        using y j(1) jl unfolding young_def by (auto dest: Suc_leD)
      ultimately show "\<forall>e\<in>set (elements (?h3 (?cs[i := fc] ! j))). I < e"
        unfolding cj by simp
    qed
    from c3 sh y3 show ?thesis by blast
  qed
qed

lemma fold_optimizeClass:
  assumes c: "classInv I L s" and y: "young I 0 s"
  shows "\<exists>L'. classInv I L' (fold (optimizeClass I) [0..<k] s) \<and>
           shrunk I L s L' (fold (optimizeClass I) [0..<k] s) \<and>
           young I k (fold (optimizeClass I) [0..<k] s)"
proof (induction k)
  case 0
  with c y show ?case using shrunk_refl by auto
next
  case (Suc k)
  let ?t = "fold (optimizeClass I) [0..<k] s"
  from Suc obtain L1 where 1: "classInv I L1 ?t" "shrunk I L s L1 ?t" "young I k ?t" by blast
  from optimizeClass_cls [OF 1(1,3)] obtain L2 where
    2: "classInv I L2 (optimizeClass I k ?t)" "shrunk I L1 ?t L2 (optimizeClass I k ?t)"
       "young I (Suc k) (optimizeClass I k ?t)" by blast
  have "fold (optimizeClass I) [0..<Suc k] s = optimizeClass I k ?t" by simp
  with 1(2) 2 show ?case using shrunk_trans by metis
qed

lemma optimizeCharacterClassIntersection_cls:
  assumes "classInv I L s" and "bases I s"
  shows "\<exists>L'. classInv I L' (optimizeCharacterClassIntersection I s) \<and>
           shrunk I L s L' (optimizeCharacterClassIntersection I s)"
proof -
  have "young I 0 s" using assms(2) unfolding young_def bases_def by auto
  from fold_optimizeClass [OF assms(1) this] show ?thesis
    unfolding optimizeCharacterClassIntersection_def by blast
qed

lemma createCharacterClass_facts:
  assumes "createCharacterClass (Some p) neg s = (N, s1)"
  shows "N = next_addr s" and "next_addr s1 = Suc (Suc (Suc (next_addr s)))"
    and "\<forall>b. b \<noteq> N \<longrightarrow> b \<noteq> Suc N \<longrightarrow> b \<noteq> Suc (Suc N) \<longrightarrow> heap s1 b = heap s b"
    and "elements (heap s1 N) = [Suc N]" and "kids (heap s1 N) = [Suc N]"
    and "ntype (heap s1 N) = CharacterClass" and "parent (heap s1 N) = Some p"
    and "ntype (heap s1 (Suc N)) = CharacterClassIntersection"
    and "parent (heap s1 (Suc N)) = Some N"
    and "classes (heap s1 (Suc N)) = [Suc (Suc N)]" and "kids (heap s1 (Suc N)) = [Suc (Suc N)]"
    and "ntype (heap s1 (Suc (Suc N))) = CharacterClass"
    and "parent (heap s1 (Suc (Suc N))) = Some (Suc N)"
    and "elements (heap s1 (Suc (Suc N))) = []" and "kids (heap s1 (Suc (Suc N))) = []"
  using assms
  by (auto simp: createCharacterClass_def withInitialIntersection_def
        createCharacterClassIntersection_def createCharacterClassBase_def
        new_node_def upd_def kids_def getNodeBase_def Let_def)

lemma parseCharacterClassOpen_Inr:
  assumes "parseCharacterClassOpen w fuel tokens optimize s p neg = Inr (r, s')"
  shows "\<exists>N s1 s2 s3. createCharacterClass (Some p) neg s = (N, s1) \<and>
     classBody w fuel tokens (Suc N) s1 = Inr s2 \<and>
     s3 = (if optimize then optimizeCharacterClassIntersection (Suc N) s2 else s2) \<and>
     next_addr s' = next_addr s3 \<and>
     (if length (classes (heap s3 (Suc N))) = 1
      then r = hd (classes (heap s3 (Suc N))) \<and>
           (\<exists>x. heap s' = (heap s3)(r := x) \<and> kids x = kids (heap s3 r) \<and>
              elements x = elements (heap s3 r) \<and> classes x = classes (heap s3 r) \<and>
              ntype x = ntype (heap s3 r) \<and> parent x = Some p)
      else r = N \<and> heap s' = heap s3)"
proof -
  obtain N s1 where c: "createCharacterClass (Some p) neg s = (N, s1)"
    by (cases "createCharacterClass (Some p) neg s")
  note f = createCharacterClass_facts [OF c]
  have i: "at_index (elements (heap s1 N)) 0 = Some (Suc N)"
    using f(4) by (simp add: at_index_def)
  from assms c i obtain s2 where b: "classBody w fuel tokens (Suc N) s1 = Inr s2"
    unfolding parseCharacterClassOpen_def by (auto split: sum.splits)
  define s3 where "s3 = (if optimize then optimizeCharacterClassIntersection (Suc N) s2 else s2)"
  let ?cc = "hd (classes (heap s3 (Suc N)))"
  define s4 where "s4 = upd ?cc (\<lambda>n. n\<lparr>parent := Some p\<rparr>) s3"
  define s5 where "s5 =
     upd ?cc (\<lambda>n. n\<lparr>negate := Some (negate (heap s4 N) \<noteq> negate n)\<rparr>) s4"
  show ?thesis
  proof (cases "length (classes (heap s3 (Suc N))) = 1")
    case True
    with assms c i b have r: "r = ?cc" and s': "s' = s5\<lparr>current := current s5 + 1\<rparr>"
      unfolding parseCharacterClassOpen_def s5_def s4_def s3_def by (auto simp: Let_def)
    define x where "x = (heap s3 ?cc)\<lparr>parent := Some p,
        negate := Some (negate (heap s4 N) \<noteq> negate ((heap s3 ?cc)\<lparr>parent := Some p\<rparr>))\<rparr>"
    have h: "heap s' = (heap s3)(r := x)"
      unfolding s' s5_def s4_def x_def r by (simp add: fun_eq_iff)
    have xs: "kids x = kids (heap s3 r)" "elements x = elements (heap s3 r)"
      "classes x = classes (heap s3 r)" "ntype x = ntype (heap s3 r)" "parent x = Some p"
      unfolding x_def r by (simp_all add: kids_def)
    have n: "next_addr s' = next_addr s3" unfolding s' s5_def s4_def by simp
    from c b s3_def n True r h xs show ?thesis by auto
  next
    case False
    with assms c i b have "r = N" "s' = s3\<lparr>current := current s3 + 1\<rparr>"
      unfolding parseCharacterClassOpen_def s3_def by (auto simp: Let_def)
    with c b s3_def False show ?thesis by auto
  qed
qed

lemma stepped_class:
  assumes snd: "sound tokens w"
    and wf: "wellFormed L (heap s) (next_addr s)" and p: "p \<in> L"
    and res: "parseCharacterClassOpen w fuel tokens optimize s p neg = Inr (r, s')"
  shows "\<exists>L'. stepped L s p r L' s' \<and> ntype (heap s' r) \<noteq> Alternative \<and>
           parent (heap s' r) = Some p"
proof -
  let ?h = "heap s" and ?n = "next_addr s"
  from parseCharacterClassOpen_Inr [OF res] obtain N s1 s2 s3 where
    c: "createCharacterClass (Some p) neg s = (N, s1)"
    and b: "classBody w fuel tokens (Suc N) s1 = Inr s2"
    and s3: "s3 = (if optimize then optimizeCharacterClassIntersection (Suc N) s2 else s2)"
    and n': "next_addr s' = next_addr s3"
    and fin: "if length (classes (heap s3 (Suc N))) = 1
      then r = hd (classes (heap s3 (Suc N))) \<and>
           (\<exists>x. heap s' = (heap s3)(r := x) \<and> kids x = kids (heap s3 r) \<and>
              elements x = elements (heap s3 r) \<and> classes x = classes (heap s3 r) \<and>
              ntype x = ntype (heap s3 r) \<and> parent x = Some p)
      else r = N \<and> heap s' = heap s3"
    by blast
  note f = createCharacterClass_facts [OF c]
  let ?I = "Suc N" and ?B = "Suc (Suc N)"
  let ?h1 = "heap s1" and ?n1 = "next_addr s1"
  have Nn: "N = ?n" by (rule f(1))
  have n1: "?n1 = Suc (Suc (Suc ?n))" by (rule f(2))
  have NL: "N \<notin> L" and IL: "?I \<notin> L" and BL: "?B \<notin> L"
    using wfD(1) [OF wf] Nn by fastforce+
  have old: "?h1 a = ?h a" if "a < ?n" for a using that f(3) Nn by simp
  have oldL: "\<forall>a\<in>L. ?h1 a = ?h a" using wfD(1) [OF wf] old by blast
  have w1: "wellFormed L ?h1 ?n1"
    by (rule wf_mono [OF wf_agree [OF wf oldL]]) (simp add: n1)
  have w1': "wellFormed (insert ?B L) ?h1 ?n1"
    by (rule wf_insert [OF w1 BL])
       (use f(14,15) n1 Nn in \<open>auto simp: classShape_def noIntersection_def\<close>)
  have uB: "unheld (insert ?B L) ?h1 ?B"
    unfolding unheld_insert f(15) using unheld_new [OF w1 BL] by simp
  have c1: "classInv ?I (insert ?B L) s1"
    unfolding classInv_def f(10,11)
    using w1' IL uB f(8,12,13) n1 Nn by auto
  have b1: "bases ?I s1"
    unfolding bases_def f(10) using f(14) by (simp add: noIntersection_def)
  from classBody_cls [OF snd c1 b1 b] obtain L2 where c2: "classInv ?I L2 s2"
    and b2: "bases ?I s2" and gr: "grown ?I (insert ?B L) s1 L2 s2" by blast
  have "\<exists>L3. classInv ?I L3 s3 \<and> shrunk ?I L2 s2 L3 s3"
  proof (cases optimize)
    case True
    with optimizeCharacterClassIntersection_cls [OF c2 b2] s3 show ?thesis by simp
  next
    case False
    with c2 s3 show ?thesis using shrunk_refl by auto
  qed
  then obtain L3 where c3: "classInv ?I L3 s3" and sh: "shrunk ?I L2 s2 L3 s3" by blast
  let ?h2 = "heap s2" and ?n2 = "next_addr s2"
  let ?h3 = "heap s3" and ?n3 = "next_addr s3"
  let ?cs = "classes (?h3 ?I)"
  from c3 have w3: "wellFormed L3 ?h3 ?n3" and IL3: "?I \<notin> L3" and In3: "?I < ?n3"
    and tI: "ntype (?h3 ?I) = CharacterClassIntersection"
    and ne: "?cs \<noteq> []" and cL: "set ?cs \<subseteq> L3" and cd: "distinct ?cs"
    and kI: "kids (?h3 ?I) = ?cs"
    and cl: "\<forall>c\<in>set ?cs. parent (?h3 c) = Some ?I \<and> ntype (?h3 c) = CharacterClass \<and>
        unheld L3 ?h3 c \<and> ?I < c"
    unfolding classInv_def by blast+
  from gr have LL2: "insert ?B L \<subseteq> L2" and L2: "L2 \<subseteq> insert ?B L \<union> {?n1..<?n2}"
    and n12: "?n1 \<le> ?n2"
    and fr2: "\<forall>a<?I. ?h2 a = ?h1 a" and pI2: "parent (?h2 ?I) = parent (?h1 ?I)"
    and ty2: "\<forall>a<?n1. ntype (?h2 a) = ntype (?h1 a)"
    and un2: "\<forall>c<?I. unheld (insert ?B L) ?h1 c \<longrightarrow> unheld L2 ?h2 c"
    unfolding grown_def by blast+
  from sh have L32: "L3 \<subseteq> L2" and keep: "\<forall>a\<in>L2. a < ?I \<longrightarrow> a \<in> L3"
    and n23: "?n3 = ?n2"
    and fr3: "\<forall>a<?I. ?h3 a = ?h2 a" and pI3: "parent (?h3 ?I) = parent (?h2 ?I)"
    and ty3: "\<forall>a. ntype (?h3 a) = ntype (?h2 a)"
    and un3: "\<forall>c<?I. unheld L2 ?h2 c \<longrightarrow> unheld L3 ?h3 c"
    unfolding shrunk_def by blast+
  have same: "?h3 a = ?h a" if "a < ?n" for a using that fr3 fr2 old Nn by simp
  have hN: "?h3 N = ?h1 N" using fr3 fr2 by simp
  have pI: "parent (?h3 ?I) = Some N" using pI3 pI2 f(9) by simp
  have LL3: "L \<subseteq> L3"
  proof
    fix a assume a: "a \<in> L"
    then have "a < ?I" using wfD(1) [OF wf a] Nn by simp
    with a LL2 keep show "a \<in> L3" by blast
  qed
  have L3: "L3 \<subseteq> L \<union> {?n..<?n3}" using L32 L2 n1 n23 n12 Nn by auto
  have NL3: "N \<notin> L3" using L3 NL Nn L32 L2 n1 by auto
  have un: "unheld L3 ?h3 c" if "c < ?n" "unheld L ?h c" for c
  proof -
    have "unheld L ?h1 c" using that(2) unheld_agree [OF oldL] by simp
    then have "unheld (insert ?B L) ?h1 c" using f(15) by (simp add: unheld_insert)
    with un2 un3 that(1) Nn show ?thesis by simp
  qed
  have pn: "p < ?n" using wfD(1) [OF wf p] .
  have frame_p: "\<exists>es. ?h3 p = (?h p)\<lparr>elements := es\<rparr> \<and> set es \<subseteq> set (elements (?h p))"
    using same [OF pn] by (intro exI [of _ "elements (?h p)"]) simp
  show ?thesis
  proof (cases "length ?cs = 1")
    case True
    with fin obtain x where r: "r = hd ?cs" and h': "heap s' = ?h3(r := x)"
      and x: "kids x = kids (?h3 r)" "elements x = elements (?h3 r)"
        "classes x = classes (?h3 r)" "ntype x = ntype (?h3 r)" "parent x = Some p"
      by auto
    let ?h5 = "?h3(r := x)"
    have rin: "r \<in> set ?cs" using ne r by simp
    then have rL: "r \<in> L3" and Ir: "?I < r" and ur: "unheld L3 ?h3 r"
      and tr: "ntype (?h3 r) = CharacterClass" using cL cl by auto
    have w5: "wellFormed L3 ?h5 ?n3"
      by (rule wf_fields [OF w3 x(1-4)]) (rule disjI2, rule ur)
    have u5: "unheld L3 ?h5 c" if "unheld L3 ?h3 c" for c
      using that unheld_fields [where h = ?h3 and a = r and x = x, OF x(1)] by simp
    have "stepped L s p r L3 s'"
      unfolding stepped_def h' n'
    proof (intro conjI allI impI)
      show "wellFormed L3 ?h5 ?n3" by (rule w5)
      show "L \<subseteq> L3" by (rule LL3)
      show "L3 \<subseteq> L \<union> {?n..<?n3}" by (rule L3)
      show "?n \<le> r" using Ir Nn by simp
      show "r \<in> L3" by (rule rL)
      show "unheld L3 ?h5 r" by (rule u5 [OF ur])
      show "ntype (?h5 r) \<noteq> CharacterClassIntersection" using x(4) tr by simp
      show "\<exists>es. ?h5 p = (?h p)\<lparr>elements := es\<rparr> \<and> set es \<subseteq> set (elements (?h p))"
        using frame_p pn Ir Nn by simp
      show "?h5 p = ?h p" using same [OF pn] pn Ir Nn by simp
    next
      fix a assume "a < ?n" then show "?h5 a = ?h a" using same Ir Nn by simp
    next
      fix a assume "a < ?n" then show "ntype (?h5 a) = ntype (?h a)" using same Ir Nn by simp
    next
      fix c assume c: "c < ?n" "unheld L ?h c"
      from un [OF c] show "unheld L3 ?h5 c" by (rule u5)
    qed
    moreover have "ntype (?h5 r) \<noteq> Alternative" "parent (?h5 r) = Some p"
      using x(4,5) tr by simp_all
    ultimately show ?thesis unfolding h' by blast
  next
    case False
    with fin have r: "r = N" and h': "heap s' = ?h3" by simp_all
    have len: "2 \<le> length ?cs" using False ne by (cases ?cs) (auto simp: Suc_le_eq)
    have wI: "wellFormed (insert ?I L3) ?h3 ?n3"
      by (rule wf_insert [OF w3 IL3 In3])
         (use kI cL cd cl tI in \<open>auto simp: parentOK_def\<close>)
    have uI: "unheld (insert ?I L3) ?h3 ?I"
      unfolding unheld_insert kI using unheld_new [OF w3 IL3] cl by auto
    have NI: "N \<notin> insert ?I L3" using NL3 by simp
    have kN: "kids (?h3 N) = [?I]" "elements (?h3 N) = [?I]" using hN f(4,5) by simp_all
    have shp: "classShape ?h3 N"
      unfolding classShape_def using kN(2) tI len by simp
    have Nn3: "N < ?n3" using In3 by simp
    have wN: "wellFormed (insert N (insert ?I L3)) ?h3 ?n3"
      by (rule wf_insert [OF wI NI Nn3])
         (use kN uI pI shp in \<open>auto simp: parentOK_def\<close>)
    have uN: "unheld (insert N (insert ?I L3)) ?h3 N"
      unfolding unheld_insert kN kI using unheld_new [OF w3 NL3] cl by auto
    have "stepped L s p N (insert N (insert ?I L3)) s'"
      unfolding stepped_def h' n'
    proof (intro conjI allI impI)
      show "wellFormed (insert N (insert ?I L3)) ?h3 ?n3" by (rule wN)
      show "L \<subseteq> insert N (insert ?I L3)" using LL3 by blast
      show "insert N (insert ?I L3) \<subseteq> L \<union> {?n..<?n3}" using L3 Nn In3 by auto
      show "?n \<le> N" using Nn by simp
      show "unheld (insert N (insert ?I L3)) ?h3 N" by (rule uN)
      show "ntype (?h3 N) \<noteq> CharacterClassIntersection" using hN f(6) by simp
      show "\<exists>es. ?h3 p = (?h p)\<lparr>elements := es\<rparr> \<and> set es \<subseteq> set (elements (?h p))"
        by (rule frame_p)
      show "?h3 p = ?h p" using same [OF pn] .
    next
      fix a assume "a < ?n" then show "?h3 a = ?h a" by (rule same)
    next
      fix a assume "a < ?n" then show "ntype (?h3 a) = ntype (?h a)" using same by simp
    next
      fix c assume c: "c < ?n" "unheld L ?h c"
      have "c \<notin> set ?cs" using cl c(1) Nn by auto
      with un [OF c] kI kN c(1) Nn show "unheld (insert N (insert ?I L3)) ?h3 c"
        by (simp add: unheld_insert)
    qed simp
    moreover have "ntype (?h3 N) \<noteq> Alternative" "parent (?h3 N) = Some p"
      using hN f(6,7) by simp_all
    ultimately show ?thesis unfolding r h' by blast
  qed
qed

lemma leaf_new_node:
  "kids x = [] \<Longrightarrow> ntype x \<noteq> CharacterClassIntersection \<Longrightarrow> (r, s') = new_node x s \<Longrightarrow>
   leaf s (parent x) (ntype x = Alternative) r s'"
  unfolding leaf_def by (auto simp: new_node_def)

lemma leaf_stepped:
  assumes wf: "wellFormed L (heap s) (next_addr s)" and p: "p \<in> L" and l: "leaf s po alt r s'"
  shows "stepped L s p r (insert r L) s'" and "parent (heap s' r) = po"
    and "(ntype (heap s' r) = Alternative) = alt"
proof -
  from l obtain x where r: "r = next_addr s" and n: "next_addr s' = Suc (next_addr s)"
    and h: "heap s' = (heap s)(next_addr s := x)" and x: "kids x = []"
      "ntype x \<noteq> CharacterClassIntersection" "parent x = po" "(ntype x = Alternative) = alt"
    unfolding leaf_def by blast
  show "stepped L s p r (insert r L) s'"
    unfolding r by (rule stepped_leaf [OF wf p h n x(1,2)])
  show "parent (heap s' r) = po" "(ntype (heap s' r) = Alternative) = alt"
    using h r x by simp_all
qed

lemma kids_simple:
  "kids (getNodeBase p t) = []"
  "ntype (getNodeBase p t) = t"
  "parent (getNodeBase p t) = p"
  "kids (n\<lparr>kind := a\<rparr>) = kids n"
  "kids (n\<lparr>negate := b\<rparr>) = kids n"
  "kids (n\<lparr>ref := c\<rparr>) = kids n"
  "kids (n\<lparr>cvalue := d\<rparr>) = kids n"
  "kids (n\<lparr>property := e\<rparr>) = kids n"
  "kids (n\<lparr>gflags := f\<rparr>) = kids n"
  "elements n = [] \<Longrightarrow> kids (n\<lparr>elements := []\<rparr>) = kids n"
  "elements (getNodeBase p t) = []"
  by (simp_all add: kids_def getNodeBase_def)

lemma leaf_new:
  assumes "new_node x s0 = (r, s')" and "heap s0 = heap s" and "next_addr s0 = next_addr s"
    and "kids x = []" and "ntype x \<noteq> CharacterClassIntersection" and "parent x = po"
    and "(ntype x = Alternative) = alt"
  shows "leaf s po alt r s'"
  using assms unfolding leaf_def by (auto simp: new_node_def)

lemma leaf_alternative:
  "createAlternative po s = (r, s') \<Longrightarrow> leaf s po True r s'"
  unfolding createAlternative_def
  by (erule leaf_new) (simp_all add: kids_simple)

lemma leaf_assertion:
  assumes "createAssertionFromToken (Some p) (Tok_Assertion k) s = Inr (r, s')"
  shows "leaf s (Some p) False r s'"
proof -
  from assms obtain knd where "new_node ((getNodeBase (Some p) Assertion)
                 \<lparr>kind := Some knd,
                  negate := (if knd = word_boundary then Some (k = [backslash, CHR ''B''])
                             else None)\<rparr>) s = (r, s')"
    by (auto simp: createAssertionFromToken_def split: option.splits)
  then show ?thesis by (rule leaf_new) (simp_all add: kids_simple)
qed

lemma leaf_createBackreference:
  "createBackreference (Some p) rf s0 = (r, s') \<Longrightarrow> heap s0 = heap s \<Longrightarrow>
   next_addr s0 = next_addr s \<Longrightarrow> leaf s (Some p) False r s'"
  unfolding createBackreference_def
  by (erule leaf_new) (simp_all add: kids_simple)

lemma leaf_fromNum:
  assumes "fromNum s p num rel = Inr (r, s')"
  shows "leaf s (Some p) False r s'"
proof -
  from assms obtain rf where
    "createBackreference (Some p) rf (s\<lparr>hasNumberedGroupRef := True\<rparr>) = (r, s')"
    unfolding fromNum_def Let_def by (auto split: if_splits)
  then show ?thesis by (rule leaf_createBackreference) simp_all
qed

lemma leaf_backreference:
  assumes "parseBackreference s p raw = Inr (r, s')"
  shows "leaf s (Some p) False r s'"
proof -
  from assms have "(\<exists>num rel. fromNum s p num rel = Inr (r, s')) \<or>
      (\<exists>rf. createBackreference (Some p) rf s = (r, s'))"
    unfolding parseBackreference_def Let_def
    by (auto split: option.splits if_splits)
  then show ?thesis
    using leaf_fromNum leaf_createBackreference [where ?s0.0 = s and s = s] by blast
qed

lemma leaf_character:
  "createCharacter (Some p) v s = (r, s') \<Longrightarrow> leaf s (Some p) False r s'"
  unfolding createCharacter_def
  by (erule leaf_new) (simp_all add: kids_simple)

lemma characterSet_shape:
  "(if b then Inl e
    else Inr (new_node (if c then (n\<lparr>kind := k\<rparr>)\<lparr>negate := a, property := q\<rparr>
                        else n\<lparr>kind := k\<rparr>) s)) = Inr (r, s') \<Longrightarrow>
   \<exists>x. new_node x s = (r, s') \<and> kids x = kids n \<and> ntype x = ntype n \<and> parent x = parent n"
  by (cases b; cases c) (auto simp: kids_simple)

lemma leaf_characterSet:
  assumes "createCharacterSetFromToken E (Some p) k neg prop s = Inr (r, s')"
  shows "leaf s (Some p) False r s'"
proof -
  from characterSet_shape [OF assms [unfolded createCharacterSetFromToken_def Let_def]]
  obtain x where "new_node x s = (r, s')" "kids x = []" "ntype x = CharacterSet"
    "parent x = Some p" by (auto simp: kids_simple)
  then show ?thesis by (intro leaf_new [where x = x and ?s0.0 = s]) simp_all
qed

lemma leaf_directive:
  assumes "createDirectiveFromToken E (Some p) k fl s = Inr (r, s')"
  shows "leaf s (Some p) False r s'"
proof -
  from assms have "new_node ((getNodeBase (Some p) Directive)
                  \<lparr>kind := Some k, gflags := (if k = ''flags'' then fl else None)\<rparr>) s = (r, s')"
    unfolding createDirectiveFromToken_def
    by (cases "k \<notin> set (TokenDirectiveKinds E)") simp_all
  then show ?thesis by (rule leaf_new) (simp_all add: kids_simple)
qed

lemma leaf_subroutine:
  assumes "parseSubroutine s p raw = (r, s')"
  shows "leaf s (Some p) False r s'"
proof -
  define pr where "pr =
     (case numberedRef ''-+'' (slice raw 3 (Some (- 1))) of
               Some (sign, digits) \<Rightarrow>
                 (let num = int (to_number digits);
                      numCapsToLeft = int (length (capturingGroups s))
                  in (RefNum (if sign = [] then num
                              else if sign = ''+'' then numCapsToLeft + num
                              else numCapsToLeft + 1 - num),
                      s\<lparr>hasNumberedGroupRef := True\<rparr>))
             | None \<Rightarrow> (RefName (slice raw 3 (Some (- 1))), s))"
  have h: "heap (snd pr) = heap s" "next_addr (snd pr) = next_addr s"
    unfolding pr_def by (simp_all add: Let_def split: option.splits prod.splits)
  let ?x = "(getNodeBase (Some p) Subroutine)\<lparr>ref := Some (fst pr)\<rparr>"
  have "parseSubroutine s p raw =
      (let c = new_node ?x (snd pr)
       in (fst c, (snd c)\<lparr>subroutines := subroutines (snd c) @ [fst c]\<rparr>))"
    unfolding parseSubroutine_def pr_def createSubroutine_def
    by (simp add: Let_def split_def)
  with assms have r: "r = next_addr s" and s': "heap s' = (heap s)(next_addr s := ?x)"
    "next_addr s' = Suc (next_addr s)"
    by (auto simp: Let_def new_node_def h)
  show ?thesis
    unfolding leaf_def
  proof (intro conjI exI [of _ ?x])
    show "r = next_addr s" by (rule r)
    show "next_addr s' = Suc (next_addr s)" by (rule s'(2))
    show "heap s' = (heap s)(next_addr s := ?x)" by (rule s'(1))
  qed (simp_all add: kids_simple)
qed

lemma leaf_variableLength:
  assumes "createVariableLengthCharacterSet (Some p) k s = Inr (r, s')"
  shows "leaf s (Some p) False r s'"
proof -
  from assms obtain knd where "new_node
      ((getNodeBase (Some p) VariableLengthCharacterSet)\<lparr>kind := Some knd\<rparr>) s = (r, s')"
    by (auto simp: createVariableLengthCharacterSet_def split: if_splits)
  then show ?thesis by (rule leaf_new) (simp_all add: kids_simple)
qed

lemma sound_walkToken:
  assumes snd: "sound tokens w"
  shows "sound tokens (walkToken E tokens optimize w fuel)"
  unfolding sound_def
proof (intro allI impI)
  fix L s0 p r s'
  assume wf0: "wellFormed L (heap s0) (next_addr s0)" and p: "p \<in> L"
    and res: "walkToken E tokens optimize w fuel s0 p = Inr (r, s')"
  from res obtain token where tk: "at_index tokens (current s0) = Some token"
    by (auto simp: walkToken_def split: option.splits)
  define s where "s = s0\<lparr>current := current s0 + 1\<rparr>"
  have hs: "heap s = heap s0" "next_addr s = next_addr s0" by (simp_all add: s_def)
  have wf: "wellFormed L (heap s) (next_addr s)" using wf0 hs by simp
  note res' = res [unfolded walkToken_def tk option.case Let_def, folded s_def]
  have "\<exists>L'. stepped L s p r L' s' \<and>
      (if ntype (heap s' r) = Alternative
       then parent (heap s' r) = parent (heap s p) \<and> token = Tok_Alternator
       else parent (heap s' r) = Some p)"
  proof (cases token)
    case Tok_Alternator
    with res' have "createAlternative (parent (heap s p)) s = (r, s')" by simp
    from leaf_stepped [OF wf p leaf_alternative [OF this]] Tok_Alternator
    show ?thesis by auto
  next
    case (Tok_Assertion k)
    with res' have "createAssertionFromToken (Some p) (Tok_Assertion k) s = Inr (r, s')" by simp
    from leaf_stepped [OF wf p leaf_assertion [OF this]] show ?thesis by auto
  next
    case (Tok_Backreference raw)
    with res' have "parseBackreference s p raw = Inr (r, s')" by simp
    from leaf_stepped [OF wf p leaf_backreference [OF this]] show ?thesis by auto
  next
    case (Tok_Character v)
    with res' have "createCharacter (Some p) v s = (r, s')" by simp
    from leaf_stepped [OF wf p leaf_character [OF this]] show ?thesis by auto
  next
    case Tok_CharacterClassClose
    with res' show ?thesis by simp
  next
    case Tok_CharacterClassHyphen
    with res' have "parseCharacterClassHyphen w s p (at_index tokens (current s)) = Inr (r, s')"
      by simp
    from stepped_hyphen [OF snd wf p this] show ?thesis by auto
  next
    case Tok_CharacterClassIntersector
    with res' show ?thesis by simp
  next
    case (Tok_CharacterClassOpen neg)
    with res' have "parseCharacterClassOpen w fuel tokens optimize s p neg = Inr (r, s')" by simp
    from stepped_class [OF snd wf p this] show ?thesis by auto
  next
    case (Tok_CharacterSet k neg prp)
    with res' have "createCharacterSetFromToken E (Some p) k neg prp s = Inr (r, s')" by simp
    from leaf_stepped [OF wf p leaf_characterSet [OF this]] show ?thesis by auto
  next
    case (Tok_Directive k fl)
    with res' have "createDirectiveFromToken E (Some p) k fl s = Inr (r, s')" by simp
    from leaf_stepped [OF wf p leaf_directive [OF this]] show ?thesis by auto
  next
    case Tok_GroupClose
    with res' show ?thesis by simp
  next
    case (Tok_GroupOpen gk num nm fl neg)
    with res' have "parseGroupOpen E w fuel tokens optimize s p token = Inr (r, s')" by simp
    from stepped_group [OF snd wf p this] show ?thesis by auto
  next
    case (Tok_Quantifier mn mx grdy poss)
    with res' have "parseQuantifier s p mn mx grdy poss = Inr (r, s')" by simp
    from stepped_quantifier [OF wf p this] show ?thesis by auto
  next
    case (Tok_Subroutine raw)
    with res' have "parseSubroutine s p raw = (r, s')" by simp
    from leaf_stepped [OF wf p leaf_subroutine [OF this]] show ?thesis by auto
  next
    case (Tok_VariableLengthCharacterSet k)
    with res' have "createVariableLengthCharacterSet (Some p) k s = Inr (r, s')" by simp
    from leaf_stepped [OF wf p leaf_variableLength [OF this]] show ?thesis by auto
  next
    case Tok_Other
    with res' show ?thesis by simp
  qed
  then obtain L' where st: "stepped L s p r L' s'"
    and pa: "if ntype (heap s' r) = Alternative
       then parent (heap s' r) = parent (heap s p) \<and> token = Tok_Alternator
       else parent (heap s' r) = Some p" by blast
  have "stepped L s0 p r L' s'"
    using st stepped_cong [OF hs(1)[symmetric] hs(2)[symmetric] refl refl] by blast
  moreover have "if ntype (heap s' r) = Alternative
      then parent (heap s' r) = parent (heap s0 p) \<and>
           at_index tokens (current s0) = Some Tok_Alternator
      else parent (heap s' r) = Some p"
    using pa tk hs by (auto split: if_splits)
  ultimately show "\<exists>L'. walked tokens L s0 p r L' s'"
    unfolding walked_def by blast
qed

lemma sound_walk: "sound tokens (walk E tokens optimize n)"
proof (induction n)
  case 0
  show ?case by (simp add: sound_def)
next
  case (Suc n)
  then show ?case by (simp add: sound_walkToken)
qed

lemma pattern_kids: "pattern n = Some a \<Longrightarrow> a \<in> set (kids n)"
  by (simp add: kids_def)

lemma alternatives_kids: "set (alternatives n) \<subseteq> set (kids n)"
  by (auto simp: kids_def)

lemma topLevel_Inr:
  assumes "topLevel w fuel tokens ast topAlt s = Inr s'"
  shows "s' = s \<or>
     (\<exists>k r s1. fuel = Suc k \<and> w s topAlt = Inr (r, s1) \<and>
        (if ntype (heap s1 r) = Alternative
         then \<exists>pat. pattern (heap s1 ast) = Some pat \<and>
                topLevel w k tokens ast r
                  (upd pat (\<lambda>n. n\<lparr>alternatives := alternatives n @ [r]\<rparr>) s1) = Inr s'
         else topLevel w k tokens ast topAlt
                (upd topAlt (\<lambda>n. n\<lparr>elements := elements n @ [r]\<rparr>) s1) = Inr s'))"
proof (cases "current s < length tokens")
  case False
  with assms show ?thesis by (subst (asm) topLevel.simps) simp
next
  case True
  with assms obtain k where k: "fuel = Suc k"
    by (subst (asm) topLevel.simps) (auto split: nat.splits)
  with assms True obtain r s1 where w: "w s topAlt = Inr (r, s1)"
    by (subst (asm) topLevel.simps) (auto split: sum.splits)
  show ?thesis
  proof (cases "ntype (heap s1 r) = Alternative")
    case a: True
    with assms True k w show ?thesis
      by (subst (asm) topLevel.simps) (auto split: option.splits)
  next
    case False
    with assms True k w show ?thesis
      by (subst (asm) topLevel.simps) auto
  qed
qed

lemma topLevel_inv:
  assumes snd: "sound tokens w"
  shows "topInv ast pat topAlt L s \<Longrightarrow> topLevel w fuel tokens ast topAlt s = Inr s' \<Longrightarrow>
         \<exists>L' topAlt'. topInv ast pat topAlt' L' s'"
proof (induction fuel arbitrary: L s topAlt)
  case 0
  from topLevel_Inr [OF 0(2)] have "s' = s" by auto
  with 0(1) show ?case by blast
next
  case (Suc fuel)
  let ?h = "heap s" and ?n = "next_addr s"
  from Suc.prems(1) have wf: "wellFormed L ?h ?n" and aL: "ast \<in> L" and pL: "pat \<in> L"
    and tL: "topAlt \<in> L" and ua: "unheld L ?h ast" and pa: "pattern (?h ast) = Some pat"
    and ta: "topAlt \<in> set (alternatives (?h pat))" and tp: "parent (?h topAlt) = Some pat"
    and tt: "ntype (?h topAlt) = Alternative"
    unfolding topInv_def by blast+
  from topLevel_Inr [OF Suc.prems(2)] show ?case
  proof (elim disjE exE conjE)
    assume "s' = s"
    with Suc.prems(1) show ?thesis by blast
  next
    fix k r s1
    assume k: "Suc fuel = Suc k" and w: "w s topAlt = Inr (r, s1)"
      and rest: "if ntype (heap s1 r) = Alternative
         then \<exists>pat. pattern (heap s1 ast) = Some pat \<and>
                topLevel w k tokens ast r
                  (upd pat (\<lambda>n. n\<lparr>alternatives := alternatives n @ [r]\<rparr>) s1) = Inr s'
         else topLevel w k tokens ast topAlt
                (upd topAlt (\<lambda>n. n\<lparr>elements := elements n @ [r]\<rparr>) s1) = Inr s'"
    let ?h1 = "heap s1" and ?n1 = "next_addr s1"
    from snd wf tL w obtain L1 where wk: "walked tokens L s topAlt r L1 s1"
      unfolding sound_def by blast
    then have st: "stepped L s topAlt r L1 s1" by (simp add: walked_def)
    from st have w1: "wellFormed L1 ?h1 ?n1" and LL: "L \<subseteq> L1"
      and r: "?n \<le> r" "r \<in> L1" "unheld L1 ?h1 r"
      and f24: "\<forall>a<?n. a \<noteq> topAlt \<longrightarrow> a \<notin> set (elements (?h topAlt)) \<longrightarrow> ?h1 a = ?h a"
      and f7: "\<forall>a<?n. ntype (?h1 a) = ntype (?h a)"
      and f5: "\<forall>c<?n. c \<notin> set (elements (?h topAlt)) \<longrightarrow> unheld L ?h c \<longrightarrow> unheld L1 ?h1 c"
      unfolding stepped_def by blast+
    from st obtain es where f3: "?h1 topAlt = (?h topAlt)\<lparr>elements := es\<rparr>"
      unfolding stepped_def by blast
    have an: "ast < ?n" and pn: "pat < ?n" and tn: "topAlt < ?n"
      using wfD(1) [OF wf] aL pL tL by blast+
    have pk: "pat \<in> set (kids (?h ast))" using pa by (rule pattern_kids)
    have tk: "topAlt \<in> set (kids (?h pat))" using ta alternatives_kids by blast
    have ap: "ast \<noteq> pat" using wfD(7) [OF wf aL] pk by metis
    have pt: "pat \<noteq> topAlt" using wfD(7) [OF wf pL] tk by metis
    have at: "ast \<noteq> topAlt" using ua pL tk by (auto simp: unheld_def)
    have ae: "ast \<notin> set (elements (?h topAlt))"
      using ua tL elements_kids by (fastforce simp: unheld_def)
    have pe: "pat \<notin> set (elements (?h topAlt))"
    proof
      assume "pat \<in> set (elements (?h topAlt))"
      then have "pat \<in> set (kids (?h topAlt))" using elements_kids by blast
      from wfD(5) [OF wf aL tL pk this] at show False by simp
    qed
    have ha: "?h1 ast = ?h ast" using f24 an at ae by simp
    have hp: "?h1 pat = ?h pat" using f24 pn pt pe by simp
    have ua1: "unheld L1 ?h1 ast" using f5 an ae ua by simp
    have ra: "r \<noteq> ast" "r \<noteq> pat" "r \<noteq> topAlt" using r(1) an pn tn by simp_all
    have t1: "ntype (?h1 topAlt) = Alternative" "parent (?h1 topAlt) = Some pat"
      using f3 tt tp by simp_all
    show ?thesis
    proof (cases "ntype (?h1 r) = Alternative")
      case True
      with rest ha pa have body: "topLevel w k tokens ast r
          (upd pat (\<lambda>n. n\<lparr>alternatives := alternatives n @ [r]\<rparr>) s1) = Inr s'" by simp
      let ?s2 = "upd pat (\<lambda>n. n\<lparr>alternatives := alternatives n @ [r]\<rparr>) s1"
      let ?h2 = "?h1(pat := (?h1 pat)\<lparr>alternatives := alternatives (?h1 pat) @ [r]\<rparr>)"
      have h2: "heap ?s2 = ?h2" "next_addr ?s2 = ?n1" by simp_all
      from wk True have rp: "parent (?h1 r) = Some pat"
        unfolding walked_def using tp by simp
      have w2: "wellFormed L1 ?h2 ?n1"
        by (rule wf_push_alt [OF w1 _ r(2,3)]) (use pL LL rp ra in \<open>auto simp: parentOK_def\<close>)
      have "topInv ast pat r L1 ?s2"
        unfolding topInv_def h2
      proof (intro conjI)
        show "wellFormed L1 ?h2 ?n1" by (rule w2)
        show "ast \<in> L1" "pat \<in> L1" using aL pL LL by blast+
        show "r \<in> L1" by (rule r(2))
        show "unheld L1 ?h2 ast" using ua1 ra(1) by (intro unheld_push_alt) simp_all
        show "pattern (?h2 ast) = Some pat" using ha pa ap by simp
        show "r \<in> set (alternatives (?h2 pat))" by simp
        show "parent (?h2 r) = Some pat" using rp ra by simp
        show "ntype (?h2 r) = Alternative" using True ra by simp
      qed
      from Suc.IH [OF this] k body show ?thesis by simp
    next
      case False
      with rest have body: "topLevel w k tokens ast topAlt
          (upd topAlt (\<lambda>n. n\<lparr>elements := elements n @ [r]\<rparr>) s1) = Inr s'" by simp
      let ?s2 = "upd topAlt (\<lambda>n. n\<lparr>elements := elements n @ [r]\<rparr>) s1"
      let ?h2 = "?h1(topAlt := (?h1 topAlt)\<lparr>elements := elements (?h1 topAlt) @ [r]\<rparr>)"
      have h2: "heap ?s2 = ?h2" "next_addr ?s2 = ?n1" by simp_all
      from wk False have rp: "parent (?h1 r) = Some topAlt"
        unfolding walked_def by simp
      have w2: "wellFormed L1 ?h2 ?n1"
        by (rule wf_push [OF w1 _ r(2,3)]) (use tL LL rp ra t1 in \<open>auto simp: parentOK_def\<close>)
      have "topInv ast pat topAlt L1 ?s2"
        unfolding topInv_def h2
      proof (intro conjI)
        show "wellFormed L1 ?h2 ?n1" by (rule w2)
        show "ast \<in> L1" "pat \<in> L1" "topAlt \<in> L1" using aL pL tL LL by blast+
        show "unheld L1 ?h2 ast" using ua1 ra(1) by (intro unheld_push) simp_all
        show "pattern (?h2 ast) = Some pat" using ha pa at by simp
        show "topAlt \<in> set (alternatives (?h2 pat))" using hp ta pt by simp
        show "parent (?h2 topAlt) = Some pat" using t1 by simp
        show "ntype (?h2 topAlt) = Alternative" using t1 by simp
      qed
      from Suc.IH [OF this] k body show ?thesis by simp
    qed
  qed
qed

lemma initial_topInv:
  "topInv 0 (Suc 0) 2 {0, Suc 0, 2, 3} (snd (createRegExp None fl initial))"
  unfolding topInv_def wellFormed_def unheld_def
  by (simp add: createRegExp_def createPattern_def createFlags_def withInitialAlternative_def
        createAlternative_def new_node_def upd_def getNodeBase_def initial_def kids_def
        parentOK_def Let_def)

text \<open>
  The loop of \<open>parse\<close> keeps the invariant for every bound \<open>n\<close> on the nesting of the
  walker and every bound \<open>m\<close> on the turns of the loop: the bounds of the model play no
  part in what holds of a tree that is returned.
\<close>

lemma walkTokens_wellFormed:
  assumes "topLevel (walk E tokens optimize n) m tokens 0 2 (snd (createRegExp None fl initial))
           = Inr s"
  shows "\<exists>L. wellFormed L (heap s) (next_addr s) \<and> 0 \<in> L"
  using topLevel_inv [OF sound_walk initial_topInv assms] unfolding topInv_def by blast

lemma parse_Inr:
  assumes "parse E tokens fl optimize = Inr (ast, s)"
  shows "ast = 0 \<and>
    topLevel (walk E tokens optimize (parse_fuel tokens)) (parse_fuel tokens) tokens 0 2
      (snd (createRegExp None fl initial)) = Inr s"
proof -
  define s1 where "s1 = snd (createRegExp None fl initial)"
  have f: "createRegExp None fl initial = (0, s1)" "pattern (heap s1 0) = Some (Suc 0)"
    "at_index (alternatives (heap s1 (Suc 0))) 0 = Some 2"
    unfolding s1_def
    by (simp_all add: createRegExp_def createPattern_def createFlags_def
        withInitialAlternative_def createAlternative_def new_node_def upd_def getNodeBase_def
        initial_def at_index_def Let_def)
  from assms show ?thesis
    unfolding parse_def walkTokens_def f Let_def split_conv option.case s1_def [symmetric]
    by (auto split: sum.splits option.splits)
qed

lemma parse_wellFormed:
  assumes "parse E tokens fl optimize = Inr (ast, s)"
  shows "\<exists>L. wellFormed L (heap s) (next_addr s) \<and> ast \<in> L"
  using parse_Inr [OF assms] walkTokens_wellFormed by blast

lemma inAst_live:
  assumes "inAst h r a" and "wellFormed L h n" and "r \<in> L"
  shows "a \<in> L"
  using assms by (induction rule: inAst.induct) (auto dest: wfD(2))

section \<open>The claims about the whole tree\<close>




text \<open>
  C1, as the code has it. In every tree that \<open>parse\<close> returns without \<open>optimize\<close> (and
  with it as well), a \<open>CharacterClass\<close> has one of two shapes: its only element is a
  \<open>CharacterClassIntersection\<close> of two or more classes; or none of its elements is a
  \<open>CharacterClassIntersection\<close>. The wrapper stays for a class with an intersector
  only: \<open>parseCharacterClassOpen\<close> returns the one class of the intersection in place
  of the class it made when the intersection has one class, whatever \<open>optimize\<close> is.
\<close>

theorem class_shape:
  assumes "parse E tokens fl optimize = Inr (ast, s)"
    and "inAst (heap s) ast a" and "ntype (heap s a) = CharacterClass"
  shows "(\<exists>i. elements (heap s a) = [i] \<and> ntype (heap s i) = CharacterClassIntersection \<and>
            2 \<le> length (classes (heap s i))) \<or>
         (\<forall>e\<in>set (elements (heap s a)). ntype (heap s e) \<noteq> CharacterClassIntersection)"
proof -
  from parse_wellFormed [OF assms(1)] obtain L
    where wf: "wellFormed L (heap s) (next_addr s)" and "ast \<in> L"
    by blast
  from inAst_live [OF assms(2) this] have "a \<in> L" .
  from wfD(6) [OF wf this assms(3)] show ?thesis
    by (simp add: classShape_def noIntersection_def)
qed

theorem class_shape_witness:
  "\<not> isl (parse ascii_env tokens_class_and no_flags False) \<and>
   inAst (heap_of (parse ascii_env tokens_class_and no_flags False)) 0 4 \<and>
   ntype (heap_of (parse ascii_env tokens_class_and no_flags False) 4) = CharacterClass \<and>
   elements (heap_of (parse ascii_env tokens_class_and no_flags False) 4) = [5] \<and>
   ntype (heap_of (parse ascii_env tokens_class_and no_flags False) 5) =
     CharacterClassIntersection \<and>
   2 \<le> length (classes (heap_of (parse ascii_env tokens_class_and no_flags False) 5))"
proof -
  from run_class_and [of ascii_env no_flags] obtain s where
    p: "parse ascii_env tokens_class_and no_flags False = Inr (0, s)"
    and f: "pattern (heap s 0) = Some (Suc 0)" "alternatives (heap s (Suc 0)) = [2]"
      "elements (heap s 2) = [4]" "ntype (heap s 4) = CharacterClass"
      "elements (heap s 4) = [5]" "ntype (heap s 5) = CharacterClassIntersection"
    by blast
  have h: "heap_of (parse ascii_env tokens_class_and no_flags False) = heap s"
    by (simp add: p heap_of_def)
  have i1: "inAst (heap s) 0 (Suc 0)"
    by (rule inAst.child [OF inAst.root]) (rule pattern_kids [OF f(1)])
  have i2: "inAst (heap s) 0 2"
    by (rule inAst.child [OF i1]) (use f(2) alternatives_kids [of "heap s (Suc 0)"] in auto)
  have i4: "inAst (heap s) 0 4"
    by (rule inAst.child [OF i2]) (use f(3) elements_kids [of "heap s 2"] in auto)
  from class_shape [OF p i4 f(4)] f(5,6)
  have l: "2 \<le> length (classes (heap s 5))" by simp
  show ?thesis
    unfolding h using p i4 f(4,5,6) l by simp
qed

text \<open>
  C1 as stated fails on the tokens of \<^verbatim>\<open>[a]\<close> without \<open>optimize\<close>: the tree has a
  \<open>CharacterClass\<close> (node 6) in the top-level alternative (node 2), and the only
  element of the class is the \<open>Character\<close> (node 7): it has no
  \<open>CharacterClassIntersection\<close> child.
\<close>

theorem class_shape_counterexample:
  "\<not> isl (parse ascii_env tokens_class_a no_flags False) \<and>
   pattern (heap_of (parse ascii_env tokens_class_a no_flags False) 0) = Some 1 \<and>
   alternatives (heap_of (parse ascii_env tokens_class_a no_flags False) 1) = [2] \<and>
   elements (heap_of (parse ascii_env tokens_class_a no_flags False) 2) = [6] \<and>
   ntype (heap_of (parse ascii_env tokens_class_a no_flags False) 6) = CharacterClass \<and>
   elements (heap_of (parse ascii_env tokens_class_a no_flags False) 6) = [7] \<and>
   ntype (heap_of (parse ascii_env tokens_class_a no_flags False) 7) = Character"
  using run_class_a [of ascii_env no_flags] by (auto simp: heap_of_def)

end
